theory Spec2Isabelle
  imports Main "HOL-Library.Char_ord" "HOL-Library.List_Lexorder" "HOL-Library.Multiset"
begin

section \<open>Data model\<close>

text \<open>
  The structs of the converter. Pointers into the database are indices: a \<open>version_t *\<close>
  is a \<open>vref\<close>, a \<open>file_t *\<close> is the index \<open>file - db->files\<close>, a \<open>tag_t *\<close> is a
  \<open>tref\<close>; a nullable pointer is an \<open>option\<close>. A \<open>changeset_t *\<close> points either to a
  commit changeset or to the changeset embedded in a tag (\<open>as_tag\<close>), so it is a \<open>cs_ref\<close>.
  Every struct's fields carry a prefix, since several structs share field names
  (\<open>mark\<close>, \<open>time\<close>, \<open>parent\<close>, \<open>version\<close>).
  Interned strings are compared by pointer in the source; the string cache makes that
  the same as comparing the strings.
\<close>

type_synonym vref = nat
type_synonym fref = nat
type_synonym tref = nat

datatype cs_ref = CommitCs nat | TagCs tref

datatype error = Fatal string | AssertionFailed string | UndefinedBehaviour string

record file_t =
  f_path :: string
  f_versions :: "vref list"

record version_t =
  v_file :: fref
  v_version :: string
  v_parent :: "vref option"
  v_branch :: "tref option"
  v_author :: string
  v_log :: string
  v_time :: int
  v_dead :: bool
  v_exec :: bool
  v_used :: bool
  v_mark :: nat

record fixup_ver_t =
  fx_file :: fref
  fx_version :: "vref option"
  fx_time :: int

record changeset_t =
  c_time :: int
  c_mark :: nat
  c_versions :: "vref list"

record tag_t =
  t_tag :: string
  t_branch_versions :: "(fref \<Rightarrow> vref option) option"
  t_tag_files :: "vref list"
  t_parent :: "cs_ref option"
  t_changeset :: changeset_t
  t_last :: "cs_ref option"
  t_fixup :: bool
  t_fixups :: "fixup_ver_t list"
  t_fixups_curr :: nat
  t_is_released :: bool

text \<open>
  Standard output is the sequence of the source's output calls, one event per
  \<open>printf\<close> format and one per raw block; \<open>render\<close> gives the bytes of each.
\<close>

datatype out_event =
    EBlob nat nat
  | ERaw string
  | ENewline
  | ECommit string string
  | EMark nat
  | ECommitter string int
  | EData string
  | EDataLen nat
  | EFileD string
  | EFileM bool nat string
  | EReset string string
  | EFrom nat

text \<open>
  The whole program state: the database (\<open>db\<close>), the static \<open>mark_counter\<close>, standard
  output, and the connection \<open>cvs_connection_t\<close> (fields \<open>s_...\<close>): the bytes sent to the
  server, the bytes of its reply not yet read, the current line and the two counters.
  Standard error (progress and warnings, with dates in the local time zone) is not
  part of the model.
\<close>

record state =
  files :: "fref \<Rightarrow> file_t"
  nfiles :: nat
  versions :: "vref \<Rightarrow> version_t"
  tags :: "tref \<Rightarrow> tag_t"
  ntags :: nat
  changesets :: "nat \<Rightarrow> changeset_t"
  mark_counter :: nat
  out :: "out_event list"
  s_module :: string
  s_prefix :: string
  s_line :: string
  s_input :: string
  s_sent :: string
  s_count_versions :: nat
  s_count_transactions :: nat

definition SIZE_MAX :: nat where
  "SIZE_MAX = 18446744073709551615"

definition ULONG_MAX :: nat where
  "ULONG_MAX = 18446744073709551615"

definition LONG_MAX :: nat where
  "LONG_MAX = 9223372036854775807"

text \<open>\<open>TIME_MIN\<close> and \<open>TIME_MAX\<close> where \<open>time_t\<close> is a 64-bit \<open>long\<close>.\<close>

definition TIME_MIN :: int where
  "TIME_MIN = - 9223372036854775808"

definition TIME_MAX :: int where
  "TIME_MAX = 9223372036854775807"

section \<open>Text\<close>

definition NL :: string where
  "NL = ''\<newline>''"

function dec :: "nat \<Rightarrow> string" where
  "dec n = (if n < 10 then [''0123456789'' ! n]
            else dec (n div 10) @ [''0123456789'' ! (n mod 10)])"
  by pat_completeness auto
termination
  by (relation "measure id") auto

declare dec.simps [simp del]

definition dec_int :: "int \<Rightarrow> string" where
  "dec_int i = (if i < 0 then CHR ''-'' # dec (nat (- i)) else dec (nat i))"

definition branch_name :: "string \<Rightarrow> string" where
  "branch_name t = (if t \<noteq> [] then t else ''cvs_master'')"

fun render :: "out_event \<Rightarrow> string" where
  "render (EBlob m len) = ''blob'' @ NL @ ''mark :'' @ dec m @ NL @ ''data '' @ dec len @ NL"
| "render (ERaw bytes) = bytes"
| "render ENewline = NL"
| "render (ECommit kind name) = ''commit refs/'' @ kind @ ''/'' @ name @ NL"
| "render (EMark m) = ''mark :'' @ dec m @ NL"
| "render (ECommitter a t) =
     ''committer '' @ a @ '' <'' @ a @ ''> '' @ dec_int t @ '' +0000'' @ NL"
| "render (EData l) = ''data '' @ dec (length l) @ NL @ l @ NL"
| "render (EDataLen n) = ''data '' @ dec n @ NL"
| "render (EFileD p) = ''D '' @ p @ NL"
| "render (EFileM x m p) =
     ''M '' @ (if x then ''755'' else ''644'') @ '' :'' @ dec m @ '' '' @ p @ NL"
| "render (EReset kind name) = ''reset refs/'' @ kind @ ''/'' @ name @ NL"
| "render (EFrom m) = ''from :'' @ dec m @ NL @ NL"

definition render_all :: "out_event list \<Rightarrow> string" where
  "render_all es = concat (map render es)"

text \<open>The marks that a stream defines: those of its blob and commit records.\<close>

fun marks_of :: "out_event list \<Rightarrow> nat list" where
  "marks_of [] = []"
| "marks_of (EBlob m len # es) = m # marks_of es"
| "marks_of (EMark m # es) = m # marks_of es"
| "marks_of (e # es) = marks_of es"

fun blobs_of :: "out_event list \<Rightarrow> nat list" where
  "blobs_of [] = []"
| "blobs_of (EBlob m len # es) = m # blobs_of es"
| "blobs_of (e # es) = blobs_of es"

subsection \<open>C library string functions\<close>

definition starts_with :: "string \<Rightarrow> string \<Rightarrow> bool" where
  "starts_with haystack needle = (take (length needle) haystack = needle)"

text \<open>\<open>strchr\<close> and \<open>strrchr\<close> give the offset of the first and of the last occurrence.\<close>

fun strchr :: "string \<Rightarrow> char \<Rightarrow> nat option" where
  "strchr [] c = None"
| "strchr (x # xs) c = (if x = c then Some 0 else map_option Suc (strchr xs c))"

fun strrchr :: "string \<Rightarrow> char \<Rightarrow> nat option" where
  "strrchr [] c = None"
| "strrchr (x # xs) c =
     (case strrchr xs c of
        Some k \<Rightarrow> Some (Suc k)
      | None \<Rightarrow> if x = c then Some 0 else None)"

definition isspace :: "char \<Rightarrow> bool" where
  "isspace c = (c \<in> set [CHR '' '', CHR 0x09, CHR 0x0A, CHR 0x0B, CHR 0x0C, CHR 0x0D])"

definition isdigit :: "char \<Rightarrow> bool" where
  "isdigit c = (c \<in> set ''0123456789'')"

definition digit_val :: "char \<Rightarrow> nat" where
  "digit_val c = of_char c - 48"

text \<open>
  \<open>strtoul (line, &tail, 10)\<close>: white space, an optional sign, decimal digits. Without a
  digit the value is 0 and the tail is the whole string; a value that does not fit is
  \<open>ULONG_MAX\<close>; a minus sign negates in \<open>unsigned long\<close>.
\<close>

definition strtoul :: "string \<Rightarrow> nat \<times> string" where
  "strtoul str =
     (let body = dropWhile isspace str;
          neg = (body \<noteq> [] \<and> hd body = CHR ''-'');
          rest = (if body \<noteq> [] \<and> (hd body = CHR ''-'' \<or> hd body = CHR ''+'')
                  then tl body else body);
          digits = takeWhile isdigit rest;
          v = foldl (\<lambda>a c. 10 * a + digit_val c) 0 digits
      in if digits = [] then (0, str)
         else (if v > ULONG_MAX then ULONG_MAX
               else if neg then (ULONG_MAX + 1 - v) mod (ULONG_MAX + 1)
               else v,
               dropWhile isdigit rest))"

section \<open>Errors\<close>

text \<open>
  A call returns \<open>Inr\<close> of its result, or \<open>Inl\<close> of the error where the source calls
  \<open>fatal\<close>, fails an \<open>assert\<close> or has undefined behaviour. \<open>and_then\<close> sequences two
  calls: the second runs on the result of the first unless the first failed.
\<close>

definition and_then :: "error + 'a \<Rightarrow> ('a \<Rightarrow> error + 'b) \<Rightarrow> error + 'b" where
  "and_then r f = (case r of Inl e \<Rightarrow> Inl e | Inr x \<Rightarrow> f x)"

text \<open>What a call returned, if it did.\<close>

definition result :: "error + 'a \<Rightarrow> 'a option" where
  "result r = (case r of Inl e \<Rightarrow> None | Inr x \<Rightarrow> Some x)"

section \<open>The connection to the server\<close>

text \<open>
  \<open>next_line\<close> as in \<open>server.c\<close>, line 271, where it is written for the other kind of
  connection: \<open>getline\<close> reads up to and including the next newline or up to the end of
  the reply; reading nothing at the end of the reply is fatal, a NUL in what was read is
  fatal, and a newline at the end is removed. So a last line without a newline is
  returned as it is.
\<close>

fun split_line :: "string \<Rightarrow> string \<times> string" where
  "split_line [] = ([], [])"
| "split_line (c # cs) =
     (if c = CHR 0x0A then ([], cs)
      else case split_line cs of (l, r) \<Rightarrow> (c # l, r))"

definition next_line :: "state \<Rightarrow> error + state" where
  "next_line s =
     (if s_input s = [] then Inl (Fatal ''Unexpected EOF from server.'')
      else case split_line (s_input s) of
        (l, r) \<Rightarrow>
          if CHR 0x00 \<in> set l
          then Inl (Fatal ''Got line containing ASCII NUL from server.'')
          else Inr (s\<lparr>s_line := l, s_input := r\<rparr>))"

text \<open>
  Modelled from the spec: \<open>cvs_read_block\<close>, \<open>cvs_printf\<close> and \<open>cvs_printff\<close> of the
  connection module are not among the sources. The reply is line-oriented text with raw
  bodies of a declared byte length, and a reply that ends early is fatal.
  \<open>cvs_read_block\<close> reads exactly the given number of bytes and copies them to the
  output stream if there is one; \<open>cvs_printf\<close> queues text for the server and
  \<open>cvs_printff\<close> also flushes it.
\<close>

definition cvs_read_block :: "state \<Rightarrow> bool \<Rightarrow> nat \<Rightarrow> error + state" where
  "cvs_read_block s to_stdout len =
     (if length (s_input s) < len then Inl (Fatal ''unexpected end of reply'')
      else Inr (s\<lparr>s_input := drop len (s_input s),
                  out := (if to_stdout then out s @ [ERaw (take len (s_input s))]
                          else out s)\<rparr>))"

definition cvs_printf :: "state \<Rightarrow> string \<Rightarrow> state" where
  "cvs_printf s txt = s\<lparr>s_sent := s_sent s @ txt\<rparr>"

definition cvs_printff :: "state \<Rightarrow> string \<Rightarrow> state" where
  "cvs_printff s txt = s\<lparr>s_sent := s_sent s @ txt\<rparr>"

section \<open>The database\<close>

text \<open>
  Modelled from the spec: \<open>database_find_file\<close>, \<open>file_find_version\<close>,
  \<open>version_live\<close> and \<open>version_normalise\<close> are declared in headers that are not among
  the sources. A file is identified by its path and a version by its identifier
  within the file; \<open>live(v)\<close> is \<open>v\<close> if \<open>v\<close> is not null and not dead, else null;
  \<open>normalise\<close> is the identity.
\<close>

definition database_find_file :: "state \<Rightarrow> string \<Rightarrow> fref option" where
  "database_find_file s path = find (\<lambda>i. f_path (files s i) = path) [0..<nfiles s]"

definition file_find_version :: "state \<Rightarrow> fref \<Rightarrow> string \<Rightarrow> vref option" where
  "file_find_version s f vers =
     find (\<lambda>v. v_version (versions s v) = vers) (f_versions (files s f))"

definition version_normalise :: "state \<Rightarrow> vref option \<Rightarrow> vref option" where
  "version_normalise s v = v"

definition version_live :: "state \<Rightarrow> vref option \<Rightarrow> vref option" where
  "version_live s v =
     (case v of None \<Rightarrow> None
      | Some r \<Rightarrow> if v_dead (versions s r) then None else Some r)"

definition vpath :: "state \<Rightarrow> vref \<Rightarrow> string" where
  "vpath s v = f_path (files s (v_file (versions s v)))"

definition set_mark :: "state \<Rightarrow> vref \<Rightarrow> nat \<Rightarrow> state" where
  "set_mark s v m = s\<lparr>versions := (versions s)(v := (versions s v)\<lparr>v_mark := m\<rparr>)\<rparr>"

definition set_exec :: "state \<Rightarrow> vref \<Rightarrow> bool \<Rightarrow> state" where
  "set_exec s v x = s\<lparr>versions := (versions s)(v := (versions s v)\<lparr>v_exec := x\<rparr>)\<rparr>"

text \<open>
  \<open>++mark_counter\<close> on the static \<open>long\<close>: incrementing \<open>LONG_MAX\<close> is undefined, so a new
  mark is at most \<open>LONG_MAX\<close> and never the sentinel \<open>SIZE_MAX\<close>.
\<close>

definition next_mark :: "state \<Rightarrow> error + state" where
  "next_mark s =
     (if mark_counter s \<ge> LONG_MAX then Inl (UndefinedBehaviour ''mark_counter overflow'')
      else Inr (s\<lparr>mark_counter := mark_counter s + 1\<rparr>))"

definition emit :: "state \<Rightarrow> out_event list \<Rightarrow> state" where
  "emit s es = s\<lparr>out := out s @ es\<rparr>"

section \<open>The fetch driver (crap-clone.c)\<close>

text \<open>
  \<open>read_version\<close>, lines 66 to 84: the directory part \<open>d\<close> of an update line. For an
  empty directory \<open>d[len - 1]\<close> is the space before it, which is not a slash.
\<close>

definition update_dir :: "string \<Rightarrow> error + string" where
  "update_dir line =
     (if \<not> starts_with line ''Created '' \<and>
         \<not> starts_with line ''Update-existing '' \<and>
         \<not> starts_with line ''Updated ''
      then Inl (Fatal ''Did not get Update line'')
      else case strchr line CHR '' '' of
        None \<Rightarrow> Inl (UndefinedBehaviour ''strchr'')
      | Some sp \<Rightarrow>
          let d = drop (Suc sp) line
          in if d = ''.'' \<or> d = ''./'' then Inr []
             else Inr ((if d \<noteq> [] \<and> last d = CHR ''/'' then butlast d else d) @ ''/''))"

text \<open>Lines 89 to 103: the name and the version of an entry line \<open>/name/version/...\<close>.\<close>

definition entry_line :: "string \<Rightarrow> error + (string \<times> string)" where
  "entry_line line =
     (if line = [] \<or> hd line \<noteq> CHR ''/''
      then Inl (Fatal ''doesn't look like entry line'')
      else case strchr (tl line) CHR ''/'' of
        None \<Rightarrow> Inl (Fatal ''doesn't look like entry line'')
      | Some k1 \<Rightarrow>
          (case strchr (drop (Suc k1) (tl line)) CHR ''/'' of
             None \<Rightarrow> Inl (Fatal ''doesn't look like entry line'')
           | Some k2 \<Rightarrow> Inr (take k1 (tl line), take k2 (drop (Suc k1) (tl line)))))"

text \<open>Lines 105 to 111: the version that a path and a version identifier name.\<close>

definition find_version :: "state \<Rightarrow> string \<Rightarrow> string \<Rightarrow> error + vref" where
  "find_version s path vers =
     (case database_find_file s path of
        None \<Rightarrow> Inl (Fatal ''got unknown file'')
      | Some f \<Rightarrow>
          (case file_find_version s f vers of
             None \<Rightarrow> Inl (Fatal ''got unknown file version'')
           | Some v \<Rightarrow> Inr v))"

text \<open>Lines 120 to 125: the length line.\<close>

definition file_length :: "string \<Rightarrow> error + nat" where
  "file_length line =
     (if fst (strtoul line) = ULONG_MAX \<or> snd (strtoul line) \<noteq> []
      then Inl (Fatal ''got unexpected file length'')
      else Inr (fst (strtoul line)))"

text \<open>
  Lines 66 to 125 together: the update line, the repository directory, the entry line,
  the mode line and the length line. The result is the version named, whether the mode
  has an \<open>x\<close>, the length, and the connection after the five lines.
\<close>

definition read_entry :: "state \<Rightarrow> error + (vref \<times> bool \<times> nat \<times> state)" where
  "read_entry s =
     and_then (update_dir (s_line s)) (\<lambda>d.
     and_then (next_line s) (\<lambda>s1.
     and_then (next_line s1) (\<lambda>s2.
     and_then (entry_line (s_line s2)) (\<lambda>(name, vers).
     and_then (find_version s2 (d @ name) vers) (\<lambda>v.
     and_then (next_line s2) (\<lambda>s3.
       if \<not> starts_with (s_line s3) ''u='' then Inl (Fatal ''got unexpected file mode'')
       else
         and_then (next_line s3) (\<lambda>s4.
         and_then (file_length (s_line s4)) (\<lambda>len.
           Inr (v, strchr (s_line s3) CHR ''x'' \<noteq> None, len, s4)))))))))"

definition count_version :: "state \<Rightarrow> state" where
  "count_version s = s\<lparr>s_count_versions := (s_count_versions s + 1) mod (ULONG_MAX + 1)\<rparr>"

definition read_version :: "state \<Rightarrow> error + state" where
  "read_version s =
     (if starts_with (s_line s) ''Removed '' then next_line s
      else if starts_with (s_line s) ''Checked-in '' then and_then (next_line s) next_line
      else
        and_then (read_entry s) (\<lambda>(v, x, len, s4).
          let s5 = set_exec s4 v x
          in if v_mark (versions s5 v) = SIZE_MAX then
               and_then (next_mark s5) (\<lambda>s6.
               and_then (cvs_read_block
                           (emit (set_mark s6 v (mark_counter s6))
                              [EBlob (mark_counter s6) len]) True len) (\<lambda>s8.
                 Inr (emit (count_version s8) [ENewline])))
             else
               and_then (cvs_read_block s5 False len) (\<lambda>s8. Inr (count_version s8))))"

lemma and_then_cong [fundef_cong]:
  "r = r' \<Longrightarrow> (\<And>x. r' = Inr x \<Longrightarrow> f x = f' x) \<Longrightarrow> and_then r f = and_then r' f'"
  by (cases r') (simp_all add: and_then_def)

lemma and_then_Inl [simp]: "and_then (Inl e) f = Inl e"
  by (simp add: and_then_def)

lemma and_then_Inr [simp]: "and_then (Inr x) f = f x"
  by (simp add: and_then_def)

lemma and_then_eq_Inr: "and_then r f = Inr y \<longleftrightarrow> (\<exists>x. r = Inr x \<and> f x = Inr y)"
  by (cases r) simp_all

lemma split_line_shorter:
  "i \<noteq> [] \<Longrightarrow> split_line i = (l, r) \<Longrightarrow> length r < length i"
proof (induction i arbitrary: l r)
  case Nil
  then show ?case by simp
next
  case (Cons c cs)
  show ?case
  proof (cases "c = CHR 0x0A \<or> cs = []")
    case True
    then show ?thesis using Cons.prems by (auto split: if_splits prod.splits)
  next
    case False
    obtain l' r' where sp: "split_line cs = (l', r')"
      by (cases "split_line cs") auto
    then have r: "r = r'" using Cons.prems False by simp
    have "cs \<noteq> []" using False by simp
    then have "length r' < length cs" using sp by (rule Cons.IH)
    then show ?thesis using r by simp
  qed
qed

lemma next_line_shorter:
  "next_line s = Inr s1 \<Longrightarrow> length (s_input s1) < length (s_input s)"
  by (auto simp: next_line_def split: if_splits prod.splits dest: split_line_shorter)

lemma read_entry_shorter:
  "read_entry s = Inr (v, x, len, s4) \<Longrightarrow> length (s_input s4) < length (s_input s)"
  by (auto simp: read_entry_def and_then_eq_Inr split: if_splits dest!: next_line_shorter)

lemma cvs_read_block_shorter:
  "cvs_read_block s b len = Inr s1 \<Longrightarrow> length (s_input s1) \<le> length (s_input s)"
  by (auto simp: cvs_read_block_def split: if_splits)

lemma read_version_shorter:
  "read_version s = Inr s1 \<Longrightarrow> length (s_input s1) \<le> length (s_input s)"
  by (auto simp: read_version_def and_then_eq_Inr Let_def set_exec_def set_mark_def
        emit_def count_version_def next_mark_def
      split: if_splits dest!: next_line_shorter read_entry_shorter cvs_read_block_shorter)

text \<open>
  The loop of \<open>read_versions\<close>: it ends at the line \<open>ok\<close>, and every round reads at least
  one line of the finite reply.
\<close>

function read_versions_loop :: "state \<Rightarrow> error + state" where
  "read_versions_loop s =
     and_then (next_line s) (\<lambda>s1.
       if starts_with (s_line s1) ''M '' \<or> starts_with (s_line s1) ''MT ''
       then read_versions_loop s1
       else if s_line s1 = ''ok'' then Inr s1
       else and_then (read_version s1) (\<lambda>s2. read_versions_loop s2))"
  by pat_completeness auto
termination
proof (relation "measure (\<lambda>s. length (s_input s))")
  show "wf (measure (\<lambda>s. length (s_input s)))"
    by simp
next
  fix s s1 :: state
  assume "next_line s = Inr s1"
  then show "(s1, s) \<in> measure (\<lambda>s. length (s_input s))"
    by (simp add: next_line_shorter)
next
  fix s s1 s2 :: state
  assume "next_line s = Inr s1" and "read_version s1 = Inr s2"
  then have "length (s_input s2) < length (s_input s)"
    using next_line_shorter read_version_shorter by fastforce
  then show "(s2, s) \<in> measure (\<lambda>s. length (s_input s))"
    by simp
qed

declare read_versions_loop.simps [simp del]

definition read_versions :: "state \<Rightarrow> error + state" where
  "read_versions s =
     read_versions_loop
       (s\<lparr>s_count_transactions := (s_count_transactions s + 1) mod (ULONG_MAX + 1)\<rparr>)"

text \<open>The main directory of the module, lines 180 and 240.\<close>

definition main_directory :: "state \<Rightarrow> string" where
  "main_directory s =
     ''Directory '' @ s_module s @ NL @ take (length (s_prefix s) - 1) (s_prefix s) @ NL"

definition directory :: "state \<Rightarrow> string \<Rightarrow> string" where
  "directory s d = ''Directory '' @ s_module s @ ''/'' @ d @ NL @ s_prefix s @ d @ NL"

text \<open>
  \<open>grab_version\<close> of a version that is not null (the callers pass no null pointer).
\<close>

definition grab_version :: "state \<Rightarrow> vref \<Rightarrow> error + state" where
  "grab_version s v =
     (if v_mark (versions s v) \<noteq> SIZE_MAX then Inr s
      else
        let path = vpath s v;
            s1 = (case strrchr path CHR ''/'' of
                    None \<Rightarrow> s
                  | Some k \<Rightarrow>
                      if (case v_parent (versions s v) of
                            None \<Rightarrow> True
                          | Some p \<Rightarrow> v_mark (versions s p) = SIZE_MAX)
                      then cvs_printf s (directory s (take k path))
                      else s);
            s2 = cvs_printf s1 (main_directory s1);
            s3 = cvs_printff s2
                   (''Argument -kk'' @ NL @
                    ''Argument -r'' @ v_version (versions s2 v) @ NL @
                    ''Argument --'' @ NL @
                    ''Argument '' @ path @ NL @ ''update'' @ NL)
        in and_then (read_versions s3) (\<lambda>s4.
             if v_mark (versions s4 v) = SIZE_MAX then Inl (Fatal ''failed to get'')
             else Inr s4))"

text \<open>
  The directories of \<open>grab_by_option\<close>, lines 220 to 237: \<open>d\<close> is the directory told
  last, none at first (\<open>d_len = SIZE_MAX\<close> equals no offset).
\<close>

fun declare_dirs :: "state \<Rightarrow> string option \<Rightarrow> string list \<Rightarrow> state" where
  "declare_dirs s d [] = s"
| "declare_dirs s d (p # ps) =
     (case strrchr p CHR ''/'' of
        None \<Rightarrow> declare_dirs s d ps
      | Some k \<Rightarrow>
          if d = Some (take k p) then declare_dirs s d ps
          else declare_dirs (cvs_printf s (directory s (take k p))) (Some (take k p)) ps)"

text \<open>
  Modelled from the spec: the macros \<open>ARRAY_APPEND\<close> and \<open>ARRAY_SORT\<close> of \<open>utils.h\<close> are
  not among the sources. Appending is \<open>@\<close>, and sorting with \<open>strcmp\<close> is \<open>sort\<close> in the
  byte-wise lexicographic order of strings.
\<close>

definition grab_by_option ::
  "state \<Rightarrow> string option \<Rightarrow> string option \<Rightarrow> vref list \<Rightarrow> error + state" where
  "grab_by_option s r_arg D_arg fetch =
     (if \<not> list_all (\<lambda>i. version_live s (Some i) \<noteq> None \<and> v_used (versions s i)
                            \<and> v_mark (versions s i) = SIZE_MAX) fetch
      then Inl (AssertionFailed ''v && v->used && v->mark == SIZE_MAX'')
      else if fetch = [] then Inl (AssertionFailed ''paths != paths_end'')
      else
        let paths = sort (map (vpath s) fetch);
            s1 = declare_dirs s None paths;
            s2 = cvs_printf s1 (main_directory s1);
            s3 = (case r_arg of None \<Rightarrow> s2
                  | Some r \<Rightarrow> cvs_printf s2 (''Argument -r'' @ r @ NL));
            s4 = (case D_arg of None \<Rightarrow> s3
                  | Some d \<Rightarrow> cvs_printf s3 (''Argument -D'' @ d @ NL));
            s5 = cvs_printf s4 (''Argument -kk'' @ NL @ ''Argument --'' @ NL);
            s6 = fold (\<lambda>p t. cvs_printf t (''Argument '' @ p @ NL)) paths s5;
            s7 = cvs_printff s6 (''update'' @ NL)
        in read_versions s7)"

text \<open>The three loops of \<open>grab_versions\<close>, lines 277, 292 and 315.\<close>

fun idver :: "state \<Rightarrow> vref \<Rightarrow> vref list \<Rightarrow> bool" where
  "idver s v0 [] = True"
| "idver s v0 (i # rest) =
     (if v_version (versions s i) \<noteq> v_version (versions s v0) then False
      else idver s v0 rest)"

fun date_range :: "state \<Rightarrow> vref list \<Rightarrow> int \<times> int \<Rightarrow> int \<times> int" where
  "date_range s [] (dmin, dmax) = (dmin, dmax)"
| "date_range s (i # rest) (dmin, dmax) =
     (if v_time (versions s i) < dmin then date_range s rest (v_time (versions s i), dmax)
      else if v_time (versions s i) > dmax then date_range s rest (dmin, v_time (versions s i))
      else date_range s rest (dmin, dmax))"

fun grab_each :: "state \<Rightarrow> vref list \<Rightarrow> error + state" where
  "grab_each s [] = Inr s"
| "grab_each s (i # rest) =
     (if v_mark (versions s i) = SIZE_MAX
      then and_then (grab_version s i) (\<lambda>s1. grab_each s1 rest)
      else grab_each s rest)"

text \<open>
  \<open>grab_versions\<close>. The date of the request is \<open>format_date (&dmax)\<close>, which prints in
  the time zone of the process: the function \<open>format_date\<close> is a parameter. The
  difference \<open>dmax - dmin\<close> is computed in \<open>time_t\<close>, where its overflow is undefined.
  Lines 302 to 307 format a second date that is never used.
\<close>

definition grab_versions :: "(int \<Rightarrow> string) \<Rightarrow> state \<Rightarrow> vref list \<Rightarrow> error + state" where
  "grab_versions format_date s fetch =
     (if fetch = [] then Inr s
      else if tl fetch = [] then grab_version s (hd fetch)
      else if idver s (hd fetch) (tl fetch)
      then grab_by_option s (Some (v_version (versions s (hd fetch)))) None fetch
      else
        let t0 = v_time (versions s (hd fetch));
            (dmin, dmax) = date_range s (tl fetch) (t0, t0)
        in if dmax - dmin > TIME_MAX then Inl (UndefinedBehaviour ''dmax - dmin'')
           else case v_branch (versions s (hd fetch)) of
             Some b \<Rightarrow>
               if dmax - dmin < 300
               then and_then
                      (grab_by_option s
                         (if t_tag (tags s b) \<noteq> [] then Some (t_tag (tags s b)) else None)
                         (Some (format_date dmax)) fetch)
                      (\<lambda>s1. grab_each s1 fetch)
               else grab_each s fetch
           | None \<Rightarrow> grab_each s fetch)"

section \<open>Fix-ups (fixup.c)\<close>

text \<open>
  The loop of \<open>create_fixups\<close> over the files, with the pointer \<open>tf\<close> into the tag's
  files. \<open>bv == NULL || bv->dead ? NULL : bv\<close> is \<open>version_live\<close>.
\<close>

fun create_fixups_loop ::
  "state \<Rightarrow> (fref \<Rightarrow> vref option) option \<Rightarrow> fref list \<Rightarrow> vref list \<Rightarrow> fixup_ver_t list" where
  "create_fixups_loop s branch_versions [] tf = []"
| "create_fixups_loop s branch_versions (i # rest) tf =
     (let bv = (case branch_versions of None \<Rightarrow> None
                | Some b \<Rightarrow> version_normalise s (b i));
          here = (tf \<noteq> [] \<and> v_file (versions s (hd tf)) = i);
          tv = (if here then version_normalise s (Some (hd tf)) else None);
          tf1 = (if here then tl tf else tf);
          bvl = version_live s bv;
          tvl = version_live s tv
      in if bvl = tvl then create_fixups_loop s branch_versions rest tf1
         else \<lparr>fx_file = i, fx_version = tvl,
               fx_time = (case tv of Some r \<Rightarrow> v_time (versions s r) | None \<Rightarrow> TIME_MIN)\<rparr>
              # create_fixups_loop s branch_versions rest tf1)"

definition upd_tag :: "state \<Rightarrow> tref \<Rightarrow> (tag_t \<Rightarrow> tag_t) \<Rightarrow> state" where
  "upd_tag s t f = s\<lparr>tags := (tags s)(t := f (tags s t))\<rparr>"

text \<open>
  \<open>create_fixups\<close>. A null array \<open>tag->fixups\<close> is the empty list. \<open>ARRAY_SORT\<close> with
  \<open>compare_fixup_by_time\<close> is modelled by the stable \<open>sort_key\<close>; the order of fix-ups
  of equal time is not determined by the source.
\<close>

definition create_fixups ::
  "state \<Rightarrow> (fref \<Rightarrow> vref option) option \<Rightarrow> tref \<Rightarrow> error + state" where
  "create_fixups s branch_versions t =
     (if t_fixups (tags s t) \<noteq> [] then Inl (AssertionFailed ''tag->fixups == NULL'')
      else Inr (upd_tag s t (\<lambda>tg. tg\<lparr>
             t_fixups := sort_key fx_time
               (create_fixups_loop s branch_versions [0..<nfiles s] (t_tag_files tg)),
             t_fixups_curr := 0\<rparr>)))"

text \<open>The first loop of \<open>fixup_commit_comment\<close>: (keep, added, deleted, modified).\<close>

fun fixup_stats ::
  "state \<Rightarrow> (fref \<Rightarrow> vref option) option \<Rightarrow> fref list \<Rightarrow> fixup_ver_t list
     \<Rightarrow> nat \<times> nat \<times> nat \<times> nat \<Rightarrow> nat \<times> nat \<times> nat \<times> nat" where
  "fixup_stats s base_versions [] ffv (keep, added, deleted, modified) =
     (keep, added, deleted, modified)"
| "fixup_stats s base_versions (i # rest) ffv (keep, added, deleted, modified) =
     (let bv = (case base_versions of None \<Rightarrow> None | Some b \<Rightarrow> version_live s (b i));
          here = (ffv \<noteq> [] \<and> fx_file (hd ffv) = i);
          tv = (if here then fx_version (hd ffv) else bv);
          ffv1 = (if here then tl ffv else ffv)
      in if bv = tv
         then fixup_stats s base_versions rest ffv1
                (if bv \<noteq> None then keep + 1 else keep, added, deleted, modified)
         else if tv = None
         then fixup_stats s base_versions rest ffv1 (keep, added, deleted + 1, modified)
         else if bv = None
         then fixup_stats s base_versions rest ffv1 (keep, added + 1, deleted, modified)
         else fixup_stats s base_versions rest ffv1 (keep, added, deleted, modified + 1))"

text \<open>The second loop: the lines of the comment after the first.\<close>

fun fixup_lines ::
  "state \<Rightarrow> (fref \<Rightarrow> vref option) option \<Rightarrow> nat \<Rightarrow> nat \<Rightarrow> fref list \<Rightarrow> fixup_ver_t list
     \<Rightarrow> string" where
  "fixup_lines s base_versions keep deleted [] ffv = []"
| "fixup_lines s base_versions keep deleted (i # rest) ffv =
     (let bv = (case base_versions of None \<Rightarrow> None | Some b \<Rightarrow> version_live s (b i));
          here = (ffv \<noteq> [] \<and> fx_file (hd ffv) = i);
          tv = (if here then fx_version (hd ffv) else bv);
          ffv1 = (if here then tl ffv else ffv)
      in (if bv = tv
          then (case bv of
                  Some b \<Rightarrow> if keep \<le> deleted
                            then vpath s b @ '' KEEP '' @ v_version (versions s b) @ NL
                            else []
                | None \<Rightarrow> [])
          else if tv \<noteq> None \<or> deleted \<le> keep
          then f_path (files s i) @ '' ''
                 @ (case bv of Some b \<Rightarrow> v_version (versions s b) | None \<Rightarrow> ''ADD'')
                 @ ''->''
                 @ (case tv of Some r \<Rightarrow> v_version (versions s r) | None \<Rightarrow> ''DELETE'')
                 @ NL
          else [])
         @ fixup_lines s base_versions keep deleted rest ffv1)"

definition fixup_header :: "nat \<Rightarrow> nat \<Rightarrow> nat \<Rightarrow> nat \<Rightarrow> string" where
  "fixup_header modified added deleted keep =
     ''Fix-up commit generated by crap-clone.  (~'' @ dec modified @ '' +'' @ dec added
       @ '' -'' @ dec deleted @ '' ='' @ dec keep @ '')'' @ NL"

text \<open>
  \<open>fixup_commit_comment\<close>; its parameter \<open>tag\<close> is not used. A failure of
  \<open>open_memstream\<close> is not modelled.
\<close>

definition fixup_commit_comment ::
  "state \<Rightarrow> (fref \<Rightarrow> vref option) option \<Rightarrow> fixup_ver_t list \<Rightarrow> error + string" where
  "fixup_commit_comment s base_versions fixups =
     (case fixup_stats s base_versions [0..<nfiles s] fixups (0, 0, 0, 0) of
        (keep, added, deleted, modified) \<Rightarrow>
          if added + deleted + modified \<noteq> length fixups
          then Inl (AssertionFailed ''added + deleted + modified == fixups_end - fixups'')
          else Inr (fixup_header modified added deleted keep
                      @ fixup_lines s base_versions keep deleted [0..<nfiles s] fixups))"

section \<open>The emitter (crap-clone.c)\<close>

definition cs_mark :: "state \<Rightarrow> cs_ref \<Rightarrow> nat" where
  "cs_mark s cs = (case cs of CommitCs c \<Rightarrow> c_mark (changesets s c)
                   | TagCs t \<Rightarrow> c_mark (t_changeset (tags s t)))"

definition cs_time :: "state \<Rightarrow> cs_ref \<Rightarrow> int" where
  "cs_time s cs = (case cs of CommitCs c \<Rightarrow> c_time (changesets s c)
                   | TagCs t \<Rightarrow> c_time (t_changeset (tags s t)))"

definition set_commit_mark :: "state \<Rightarrow> nat \<Rightarrow> nat \<Rightarrow> state" where
  "set_commit_mark s c m = s\<lparr>changesets := (changesets s)(c := (changesets s c)\<lparr>c_mark := m\<rparr>)\<rparr>"

definition set_tag_mark :: "state \<Rightarrow> tref \<Rightarrow> nat \<Rightarrow> state" where
  "set_tag_mark s t m = upd_tag s t (\<lambda>tg. tg\<lparr>t_changeset := (t_changeset tg)\<lparr>c_mark := m\<rparr>\<rparr>)"

text \<open>
  Modelled from the spec: \<open>fixup_list\<close> is not among the sources. The spec says that
  \<open>print_fixups\<close> before a changeset \<open>cs\<close> emits only the fix-ups whose time precedes
  that of \<open>cs\<close> and leaves the rest to later calls, and that without \<open>cs\<close> the whole
  set is flushed. The pending fix-ups are those from \<open>fixups_curr\<close> on, in the order
  in which \<open>create_fixups\<close> left them.
\<close>

definition fixup_list :: "state \<Rightarrow> tref \<Rightarrow> cs_ref option \<Rightarrow> fixup_ver_t list \<times> state" where
  "fixup_list s t cs =
     (let pending = drop (t_fixups_curr (tags s t)) (t_fixups (tags s t));
          now = (case cs of None \<Rightarrow> pending
                 | Some c \<Rightarrow> takeWhile (\<lambda>ffv. fx_time ffv < cs_time s c) pending)
      in (now, upd_tag s t (\<lambda>tg. tg\<lparr>t_fixups_curr := t_fixups_curr tg + length now\<rparr>)))"

text \<open>
  The argument \<open>base_versions\<close> of \<open>print_fixups\<close> points to the array of a tag (or is
  null); it may be the array \<open>tag->branch_versions\<close> that the last loop writes. So
  the argument is the tag whose array it is, and the array is read in the current state.
\<close>

definition base_array :: "state \<Rightarrow> tref option \<Rightarrow> (fref \<Rightarrow> vref option) option" where
  "base_array s base = (case base of None \<Rightarrow> None | Some b \<Rightarrow> t_branch_versions (tags s b))"

definition set_branch_version :: "state \<Rightarrow> tref \<Rightarrow> fref \<Rightarrow> vref option \<Rightarrow> state" where
  "set_branch_version s t i v =
     (case t_branch_versions (tags s t) of
        None \<Rightarrow> s
      | Some a \<Rightarrow> upd_tag s t (\<lambda>tg. tg\<lparr>t_branch_versions := Some (a(i := v))\<rparr>))"

text \<open>The last loop of \<open>print_fixups\<close>, lines 484 to 500.\<close>

fun fixups_delta :: "state \<Rightarrow> tref option \<Rightarrow> tref \<Rightarrow> fixup_ver_t list \<Rightarrow> error + state" where
  "fixups_delta s base t [] = Inr s"
| "fixups_delta s base t (ffv # rest) =
     (let i = fx_file ffv;
          bv = (case base_array s base of None \<Rightarrow> None | Some b \<Rightarrow> version_live s (b i));
          tv = fx_version ffv
      in if tv = bv then Inl (AssertionFailed ''tv != bv'')
         else
           fixups_delta
             (set_branch_version
                (emit s [case tv of
                           Some r \<Rightarrow> EFileM (v_exec (versions s r)) (v_mark (versions s r))
                                      (vpath s r)
                         | None \<Rightarrow> (case bv of Some b \<Rightarrow> EFileD (vpath s b)
                                     | None \<Rightarrow> EFileD [])])
                t i tv)
             base t rest)"

definition fixups_fetch :: "state \<Rightarrow> fixup_ver_t list \<Rightarrow> vref list" where
  "fixups_fetch s fixups =
     List.map_filter
       (\<lambda>ffv. case fx_version ffv of
                 None \<Rightarrow> None
               | Some r \<Rightarrow> if \<not> v_dead (versions s r) \<and> v_mark (versions s r) = SIZE_MAX
                           then Some r else None)
       fixups"

text \<open>
  Lines 467 to 477: the tag is flagged, its changeset takes the next mark, and the
  head of the commit is written, with the time of \<open>tag->last\<close> for a branch that has one.
\<close>

definition fixup_time :: "state \<Rightarrow> tref \<Rightarrow> int" where
  "fixup_time s t =
     (case t_last (tags s t) of
        Some l \<Rightarrow> if t_branch_versions (tags s t) \<noteq> None then cs_time s l
                  else c_time (t_changeset (tags s t))
      | None \<Rightarrow> c_time (t_changeset (tags s t)))"

definition ref_kind :: "state \<Rightarrow> tref \<Rightarrow> string" where
  "ref_kind s t = (if t_branch_versions (tags s t) \<noteq> None then ''heads'' else ''tags'')"

definition fixup_commit :: "state \<Rightarrow> tref \<Rightarrow> error + state" where
  "fixup_commit s t =
     and_then (next_mark (upd_tag s t (\<lambda>tg. tg\<lparr>t_fixup := True\<rparr>))) (\<lambda>s2.
       let s3 = set_tag_mark s2 t (mark_counter s2)
       in Inr (emit s3
                 [ECommit (ref_kind s3 t) (branch_name (t_tag (tags s3 t))),
                  EMark (c_mark (t_changeset (tags s3 t))),
                  ECommitter ''crap'' (fixup_time s3 t)]))"

definition print_fixups ::
  "(int \<Rightarrow> string) \<Rightarrow> state \<Rightarrow> tref option \<Rightarrow> tref \<Rightarrow> cs_ref option \<Rightarrow> error + state" where
  "print_fixups format_date s base t cs =
     (case fixup_list s t cs of
        (fixups, s0) \<Rightarrow>
          if fixups = [] then Inr s0
          else
            and_then (grab_versions format_date s0 (fixups_fetch s0 fixups)) (\<lambda>s1.
            and_then (fixup_commit s1 t) (\<lambda>s4.
            and_then (fixup_commit_comment s4 (base_array s4 base) fixups) (\<lambda>comment.
              fixups_delta (emit s4 [EDataLen (length comment), ERaw comment])
                base t fixups))))"

text \<open>The first loop of \<open>print_commit\<close>, lines 337 to 350: (nil, fetch).\<close>

fun commit_delta ::
  "state \<Rightarrow> (fref \<Rightarrow> vref option) \<Rightarrow> vref list \<Rightarrow> bool \<times> vref list \<Rightarrow> bool \<times> vref list" where
  "commit_delta s tip [] (nil, fetch) = (nil, fetch)"
| "commit_delta s tip (i # rest) (nil, fetch) =
     (if \<not> v_used (versions s i) then commit_delta s tip rest (nil, fetch)
      else if version_live s (Some i) = version_live s (tip (v_file (versions s i)))
      then commit_delta s tip rest (nil, fetch)
      else commit_delta s tip rest
             (False,
              case version_live s (Some i) of
                Some cv \<Rightarrow> if v_mark (versions s cv) = SIZE_MAX then fetch @ [cv] else fetch
              | None \<Rightarrow> fetch))"

definition file_line :: "state \<Rightarrow> vref \<Rightarrow> out_event" where
  "file_line s i =
     (case version_normalise s (Some i) of
        Some vv \<Rightarrow> if v_dead (versions s vv) then EFileD (vpath s vv)
                   else EFileM (v_exec (versions s vv)) (v_mark (versions s vv)) (vpath s vv)
      | None \<Rightarrow> EFileD [])"

text \<open>
  Lines 352 to 356: a changeset that changes nothing takes the mark of the last
  changeset of its branch.
\<close>

definition commit_nothing :: "state \<Rightarrow> nat \<Rightarrow> tref \<Rightarrow> error + state" where
  "commit_nothing s c b =
     (case t_last (tags s b) of
        None \<Rightarrow> Inl (UndefinedBehaviour ''v->branch->last'')
      | Some l \<Rightarrow>
          Inr (upd_tag (set_commit_mark s c (cs_mark s l)) b
                 (\<lambda>tg. tg\<lparr>t_last := Some (CommitCs c)\<rparr>)))"

text \<open>Lines 364 to 381: the commit record, after the versions have been fetched.\<close>

definition commit_record :: "state \<Rightarrow> nat \<Rightarrow> vref \<Rightarrow> tref \<Rightarrow> error + state" where
  "commit_record s c v b =
     and_then (next_mark (upd_tag s b (\<lambda>tg. tg\<lparr>t_last := Some (CommitCs c)\<rparr>))) (\<lambda>s3.
       let s4 = set_commit_mark s3 c (mark_counter s3)
       in Inr (emit s4
                 ([ECommit ''heads'' (branch_name (t_tag (tags s4 b))),
                   EMark (c_mark (changesets s4 c)),
                   ECommitter (v_author (versions s4 v)) (c_time (changesets s4 c)),
                   EData (v_log (versions s4 v))]
                  @ map (file_line s4)
                      (filter (\<lambda>i. v_used (versions s4 i)) (c_versions (changesets s4 c))))))"

text \<open>
  \<open>print_commit\<close>. Reading \<open>cs->versions[0]\<close> of an empty changeset, the branch of a
  version without one, the tips of a tag without an array or the mark of a missing
  \<open>last\<close> is undefined.
\<close>

definition print_commit :: "(int \<Rightarrow> string) \<Rightarrow> state \<Rightarrow> nat \<Rightarrow> error + state" where
  "print_commit format_date s c =
     (case c_versions (changesets s c) of
        [] \<Rightarrow> Inl (UndefinedBehaviour ''cs->versions[0]'')
      | v # others \<Rightarrow>
        (case v_branch (versions s v) of
           None \<Rightarrow> Inl (UndefinedBehaviour ''v->branch'')
         | Some b \<Rightarrow>
           and_then (print_fixups format_date s (Some b) b (Some (CommitCs c))) (\<lambda>s1.
             if t_branch_versions (tags s1 b) = None
                \<and> list_ex (\<lambda>i. v_used (versions s1 i)) (c_versions (changesets s1 c))
             then Inl (UndefinedBehaviour ''v->branch->branch_versions'')
             else
               case commit_delta s1
                      (case t_branch_versions (tags s1 b) of
                         Some tip \<Rightarrow> tip | None \<Rightarrow> (\<lambda>f. None))
                      (c_versions (changesets s1 c)) (True, []) of
                 (nil, fetch) \<Rightarrow>
                   if nil then commit_nothing s1 c b
                   else and_then (grab_versions format_date s1 fetch)
                          (\<lambda>s2. commit_record s2 c v b))))"

text \<open>
  \<open>print_tag\<close>, lines 395 to 417: the reset record. The result is the state after
  \<open>tag->last = &tag->changeset\<close> and the branch of the parent.
\<close>

definition print_tag_reset :: "state \<Rightarrow> tref \<Rightarrow> error + (tref option \<times> state)" where
  "print_tag_reset s t =
     and_then
       (case t_parent (tags s t) of
          None \<Rightarrow> Inr None
        | Some (CommitCs c) \<Rightarrow>
            (case c_versions (changesets s c) of
               [] \<Rightarrow> Inl (UndefinedBehaviour ''tag->parent->versions[0]'')
             | v # others \<Rightarrow> Inr (v_branch (versions s v)))
        | Some (TagCs p) \<Rightarrow> Inr (Some p))
       (\<lambda>branch.
          if t_parent (tags s t) \<noteq> None
             \<and> (case branch of None \<Rightarrow> True
                 | Some b \<Rightarrow> t_last (tags s b) \<noteq> t_parent (tags s t))
          then Inl (AssertionFailed ''branch && branch->last == tag->parent'')
          else
            let s1 = emit s [EReset (ref_kind s t) (branch_name (t_tag (tags s t)))];
                s2 = set_tag_mark s1 t
                       (case t_parent (tags s1 t) of Some p \<Rightarrow> cs_mark s1 p | None \<Rightarrow> 0);
                m = c_mark (t_changeset (tags s2 t));
                s3 = (if m \<noteq> 0 then emit s2 [EFrom m] else s2)
            in Inr (branch, upd_tag s3 t (\<lambda>tg. tg\<lparr>t_last := Some (TagCs t)\<rparr>)))"

text \<open>
  \<open>print_tag\<close>. Copying from a parent without an array of tips is undefined.
\<close>

definition print_tag :: "(int \<Rightarrow> string) \<Rightarrow> state \<Rightarrow> tref \<Rightarrow> error + state" where
  "print_tag format_date s t =
     and_then (print_tag_reset s t) (\<lambda>(branch, s1).
     and_then (create_fixups s1 (base_array s1 branch) t) (\<lambda>s2.
       case t_branch_versions (tags s2 t) of
         Some mine \<Rightarrow>
           (case branch of
              None \<Rightarrow>
                Inr (upd_tag s2 t (\<lambda>tg. tg\<lparr>t_branch_versions :=
                       Some (\<lambda>f. if f < nfiles s2 then None else mine f)\<rparr>))
            | Some b \<Rightarrow>
                (case t_branch_versions (tags s2 b) of
                   None \<Rightarrow> Inl (UndefinedBehaviour ''branch->branch_versions'')
                 | Some theirs \<Rightarrow>
                     Inr (upd_tag s2 t (\<lambda>tg. tg\<lparr>t_branch_versions :=
                            Some (\<lambda>f. if f < nfiles s2 then theirs f else mine f)\<rparr>))))
       | None \<Rightarrow> print_fixups format_date s2 branch t None))"

text \<open>
  Modelled from the spec: \<open>changeset_update_branch_versions\<close> is not among the sources.
  After a commit on a branch, the tip of each file that the commit changes is the
  version emitted.
\<close>

definition changeset_update_branch_versions :: "state \<Rightarrow> nat \<Rightarrow> state" where
  "changeset_update_branch_versions s c =
     (case c_versions (changesets s c) of
        [] \<Rightarrow> s
      | v # others \<Rightarrow>
          (case v_branch (versions s v) of
             None \<Rightarrow> s
           | Some b \<Rightarrow>
               fold (\<lambda>i st. if v_used (versions st i)
                            then set_branch_version st b (v_file (versions st i)) (Some i)
                            else st)
                 (c_versions (changesets s c)) s))"

text \<open>
  The emission loop of \<open>main\<close>, lines 603 to 623. The scheduler is not among the
  sources: the changesets that \<open>next_changeset\<close> yields are the list \<open>order\<close>, in any
  order, and the counters of \<open>changeset_emitted\<close> are not part of the state.
\<close>

definition emit_changeset :: "(int \<Rightarrow> string) \<Rightarrow> state \<Rightarrow> cs_ref \<Rightarrow> error + state" where
  "emit_changeset format_date s cs =
     (case cs of
        CommitCs c \<Rightarrow>
          and_then (print_commit format_date s c)
            (\<lambda>s1. Inr (changeset_update_branch_versions s1 c))
      | TagCs t \<Rightarrow>
          print_tag format_date (upd_tag s t (\<lambda>tg. tg\<lparr>t_is_released := True\<rparr>)) t)"

fun emit_changesets :: "(int \<Rightarrow> string) \<Rightarrow> state \<Rightarrow> cs_ref list \<Rightarrow> error + state" where
  "emit_changesets format_date s [] = Inr s"
| "emit_changesets format_date s (cs # rest) =
     and_then (emit_changeset format_date s cs)
       (\<lambda>s1. emit_changesets format_date s1 rest)"

fun final_fixups :: "(int \<Rightarrow> string) \<Rightarrow> state \<Rightarrow> tref list \<Rightarrow> error + state" where
  "final_fixups format_date s [] = Inr s"
| "final_fixups format_date s (t # rest) =
     (if t_branch_versions (tags s t) \<noteq> None
      then and_then (print_fixups format_date s (Some t) t None)
             (\<lambda>s1. final_fixups format_date s1 rest)
      else final_fixups format_date s rest)"

definition emission :: "(int \<Rightarrow> string) \<Rightarrow> state \<Rightarrow> cs_ref list \<Rightarrow> error + state" where
  "emission format_date s order =
     and_then (emit_changesets format_date s order)
       (\<lambda>s1. final_fixups format_date s1 [0..<ntags s1])"

section \<open>The specification's notions\<close>

text \<open>
  The definitions of this section follow the words of the specification; the claims
  compare them with the functions above.

  The base of a fix-up computation is the array of tips \<open>base[]\<close> of the parent branch
  (nothing if there is no parent), and the target \<open>target[]\<close> is the version that the
  tag's files name for a file, if any. A fix-up is needed for a file when the live
  base version differs from the live target version.
\<close>

definition base_version :: "(fref \<Rightarrow> vref option) option \<Rightarrow> fref \<Rightarrow> vref option" where
  "base_version base f = (case base of None \<Rightarrow> None | Some b \<Rightarrow> b f)"

definition target_version :: "state \<Rightarrow> vref list \<Rightarrow> fref \<Rightarrow> vref option" where
  "target_version s tag_files f = find (\<lambda>v. v_file (versions s v) = f) tag_files"

definition fixup_needed ::
  "state \<Rightarrow> (fref \<Rightarrow> vref option) option \<Rightarrow> vref list \<Rightarrow> fref \<Rightarrow> bool" where
  "fixup_needed s base tag_files f =
     (version_live s (base_version base f) \<noteq> version_live s (target_version s tag_files f))"

text \<open>
  The entry for a file: the live target version or null, with the time of the target
  version if the tag names one for the file (dead or not) and \<open>TIME_MIN\<close> if it names
  none.
\<close>

definition expected_fixup :: "state \<Rightarrow> vref list \<Rightarrow> fref \<Rightarrow> fixup_ver_t" where
  "expected_fixup s tag_files f =
     \<lparr>fx_file = f, fx_version = version_live s (target_version s tag_files f),
      fx_time = (case target_version s tag_files f of
                   Some v \<Rightarrow> v_time (versions s v) | None \<Rightarrow> TIME_MIN)\<rparr>"

text \<open>
  A fix-up commit changes the state of a file from its live base version to the
  version of the fix-up entry for the file, if there is one. A file is kept if both are
  the same live version, deleted if only the old one is live, added if only the new
  one is live, and modified if both are live and differ.
\<close>

datatype change = Kept | Added | Deleted | Modified | Absent

definition old_version :: "state \<Rightarrow> (fref \<Rightarrow> vref option) option \<Rightarrow> fref \<Rightarrow> vref option" where
  "old_version s base f = version_live s (base_version base f)"

definition new_version ::
  "state \<Rightarrow> (fref \<Rightarrow> vref option) option \<Rightarrow> fixup_ver_t list \<Rightarrow> fref \<Rightarrow> vref option" where
  "new_version s base fixups f =
     (case find (\<lambda>e. fx_file e = f) fixups of
        Some e \<Rightarrow> fx_version e
      | None \<Rightarrow> old_version s base f)"

definition file_change ::
  "state \<Rightarrow> (fref \<Rightarrow> vref option) option \<Rightarrow> fixup_ver_t list \<Rightarrow> fref \<Rightarrow> change" where
  "file_change s base fixups f =
     (if old_version s base f = new_version s base fixups f
      then (if old_version s base f = None then Absent else Kept)
      else if new_version s base fixups f = None then Deleted
      else if old_version s base f = None then Added
      else Modified)"

definition count_change ::
  "state \<Rightarrow> (fref \<Rightarrow> vref option) option \<Rightarrow> fixup_ver_t list \<Rightarrow> fref list \<Rightarrow> change \<Rightarrow> nat" where
  "count_change s base fixups fs c = length (filter (\<lambda>f. file_change s base fixups f = c) fs)"

text \<open>
  The line of a file in the log of a fix-up commit, as the code writes it: a file that is
  modified or added has its line; a deleted file has its line if the deleted files are
  at most as many as the kept ones; a kept file has its line if the kept files are at
  most as many as the deleted ones.
\<close>

definition version_or :: "state \<Rightarrow> vref option \<Rightarrow> string \<Rightarrow> string" where
  "version_or s v word = (case v of Some r \<Rightarrow> v_version (versions s r) | None \<Rightarrow> word)"

definition change_line ::
  "state \<Rightarrow> (fref \<Rightarrow> vref option) option \<Rightarrow> fixup_ver_t list \<Rightarrow> fref \<Rightarrow> string" where
  "change_line s base fixups f =
     f_path (files s f) @ '' '' @ version_or s (old_version s base f) ''ADD'' @ ''->''
       @ version_or s (new_version s base fixups f) ''DELETE'' @ NL"

definition keep_line :: "state \<Rightarrow> (fref \<Rightarrow> vref option) option \<Rightarrow> fref \<Rightarrow> string" where
  "keep_line s base f =
     (case old_version s base f of
        Some b \<Rightarrow> vpath s b @ '' KEEP '' @ v_version (versions s b) @ NL
      | None \<Rightarrow> [])"

definition comment_line ::
  "state \<Rightarrow> (fref \<Rightarrow> vref option) option \<Rightarrow> fixup_ver_t list \<Rightarrow> nat \<Rightarrow> nat \<Rightarrow> fref \<Rightarrow> string" where
  "comment_line s base fixups kept deleted f =
     (case file_change s base fixups f of
        Kept \<Rightarrow> if kept \<le> deleted then keep_line s base f else []
      | Absent \<Rightarrow> []
      | Deleted \<Rightarrow> if deleted \<le> kept then change_line s base fixups f else []
      | Added \<Rightarrow> change_line s base fixups f
      | Modified \<Rightarrow> change_line s base fixups f)"

definition fixup_comment ::
  "state \<Rightarrow> (fref \<Rightarrow> vref option) option \<Rightarrow> fixup_ver_t list \<Rightarrow> string" where
  "fixup_comment s base fixups =
     fixup_header
       (count_change s base fixups [0..<nfiles s] Modified)
       (count_change s base fixups [0..<nfiles s] Added)
       (count_change s base fixups [0..<nfiles s] Deleted)
       (count_change s base fixups [0..<nfiles s] Kept)
     @ concat (map (comment_line s base fixups
                      (count_change s base fixups [0..<nfiles s] Kept)
                      (count_change s base fixups [0..<nfiles s] Deleted))
                 [0..<nfiles s])"

text \<open>
  A list of fix-ups is in file order below \<open>n\<close> from \<open>k\<close> on when its files ascend
  strictly and lie in \<open>k..<n\<close>.
\<close>

definition in_file_order :: "nat \<Rightarrow> nat \<Rightarrow> fixup_ver_t list \<Rightarrow> bool" where
  "in_file_order k n fixups =
     (sorted_wrt (<) (map fx_file fixups) \<and> list_all (\<lambda>e. k \<le> fx_file e \<and> fx_file e < n) fixups)"

text \<open>An entry differs when its version is not the live base version of its file.\<close>

definition differs :: "state \<Rightarrow> (fref \<Rightarrow> vref option) option \<Rightarrow> fixup_ver_t \<Rightarrow> bool" where
  "differs s base e = (fx_version e \<noteq> old_version s base (fx_file e))"

text \<open>The sum \<open>added + deleted + modified\<close> of the statistics of \<open>fixup_commit_comment\<close>.\<close>

fun changes_of :: "nat \<times> nat \<times> nat \<times> nat \<Rightarrow> nat" where
  "changes_of (keep, added, deleted, modified) = added + deleted + modified"

text \<open>
  What fetching and emitting may change. \<open>same_db\<close>: only the connection changed.
  \<open>same_meta\<close>: two states of a version agree except for the executable bit and the
  mark, which a fetch fills in. \<open>same_tag\<close>: two states of a tag agree on its name, its
  parent, its files, the time of its changeset and on whether it is a branch.
  \<open>marks_step\<close>: from \<open>s\<close> to \<open>s'\<close> the files and the versions are the same but for bits
  and marks filled in; a mark that was set has not changed and a new mark of a version
  is a value that the counter took on the way; the output has grown by records whose
  marks are exactly the values that the counter took on the way, in that order; and
  the tags and the changesets are the same in the sense of \<open>same_tag\<close>, and in their
  times and versions.
\<close>

definition same_db :: "state \<Rightarrow> state \<Rightarrow> bool" where
  "same_db s s' \<longleftrightarrow>
     files s' = files s \<and> nfiles s' = nfiles s \<and> versions s' = versions s
     \<and> tags s' = tags s \<and> ntags s' = ntags s \<and> changesets s' = changesets s
     \<and> mark_counter s' = mark_counter s \<and> out s' = out s
     \<and> s_module s' = s_module s \<and> s_prefix s' = s_prefix s"

definition same_meta :: "version_t \<Rightarrow> version_t \<Rightarrow> bool" where
  "same_meta a b \<longleftrightarrow>
     v_file a = v_file b \<and> v_version a = v_version b \<and> v_parent a = v_parent b
     \<and> v_branch a = v_branch b \<and> v_author a = v_author b \<and> v_log a = v_log b
     \<and> v_time a = v_time b \<and> v_dead a = v_dead b \<and> v_used a = v_used b"

definition same_tag :: "tag_t \<Rightarrow> tag_t \<Rightarrow> bool" where
  "same_tag a b \<longleftrightarrow>
     t_tag a = t_tag b \<and> t_parent a = t_parent b \<and> t_tag_files a = t_tag_files b
     \<and> c_time (t_changeset a) = c_time (t_changeset b)
     \<and> c_versions (t_changeset a) = c_versions (t_changeset b)
     \<and> (t_branch_versions a = None \<longleftrightarrow> t_branch_versions b = None)"

definition new_marks :: "state \<Rightarrow> state \<Rightarrow> nat list" where
  "new_marks s s' = [Suc (mark_counter s)..<Suc (mark_counter s')]"

definition marks_step :: "state \<Rightarrow> state \<Rightarrow> bool" where
  "marks_step s s' \<longleftrightarrow>
     files s' = files s \<and> nfiles s' = nfiles s \<and> ntags s' = ntags s
     \<and> s_module s' = s_module s \<and> s_prefix s' = s_prefix s
     \<and> (\<forall>v. same_meta (versions s v) (versions s' v))
     \<and> (\<forall>v. v_mark (versions s v) \<noteq> SIZE_MAX
              \<longrightarrow> v_mark (versions s' v) = v_mark (versions s v))
     \<and> (\<forall>v. v_mark (versions s' v) \<noteq> v_mark (versions s v)
              \<longrightarrow> mark_counter s < v_mark (versions s' v)
                \<and> v_mark (versions s' v) \<le> mark_counter s'
                \<and> v_mark (versions s' v) \<le> LONG_MAX)
     \<and> mark_counter s \<le> mark_counter s'
     \<and> (\<exists>added. out s' = out s @ added \<and> marks_of added = new_marks s s')
     \<and> (\<forall>u. same_tag (tags s u) (tags s' u))
     \<and> (\<forall>c. c_time (changesets s' c) = c_time (changesets s c)
              \<and> c_versions (changesets s' c) = c_versions (changesets s c))"

text \<open>The fetch driver changes neither the tags nor the changesets.\<close>

definition fetched :: "state \<Rightarrow> state \<Rightarrow> bool" where
  "fetched s s' \<longleftrightarrow> marks_step s s' \<and> tags s' = tags s \<and> changesets s' = changesets s"

text \<open>One round of the loop of \<open>changeset_update_branch_versions\<close>.\<close>

definition tip_step :: "tref \<Rightarrow> vref \<Rightarrow> state \<Rightarrow> state" where
  "tip_step b i st =
     (if v_used (versions st i) then set_branch_version st b (v_file (versions st i)) (Some i)
      else st)"

text \<open>
  The mark that a tag takes from its parent: the mark of the parent changeset, and 0
  for a tag without a parent.
\<close>

definition parent_mark :: "state \<Rightarrow> tref \<Rightarrow> nat" where
  "parent_mark s t = (case t_parent (tags s t) of Some p \<Rightarrow> cs_mark s p | None \<Rightarrow> 0)"

text \<open>
  The time of a fix-up commit: the time of the last changeset of the branch if the tag
  is a branch that has commits already, and the time of the changeset of the tag itself
  otherwise. The last changeset of a tag is a commit or the changeset of the tag itself
  (\<open>own_last\<close>): \<open>print_tag\<close> and \<open>print_commit\<close> store nothing else.
\<close>

definition fixup_timestamp :: "state \<Rightarrow> tref \<Rightarrow> int" where
  "fixup_timestamp s t =
     (case t_last (tags s t) of
        Some (CommitCs c) \<Rightarrow>
          if t_branch_versions (tags s t) \<noteq> None then c_time (changesets s c)
          else c_time (t_changeset (tags s t))
      | Some (TagCs u) \<Rightarrow> c_time (t_changeset (tags s t))
      | None \<Rightarrow> c_time (t_changeset (tags s t)))"

definition own_last :: "state \<Rightarrow> tref \<Rightarrow> bool" where
  "own_last s t = (case t_last (tags s t) of Some (TagCs u) \<Rightarrow> u = t | _ \<Rightarrow> True)"

text \<open>Two states of a tag that differ at most in the tips of the branch.\<close>

definition only_tips :: "tag_t \<Rightarrow> tag_t \<Rightarrow> bool" where
  "only_tips a b \<longleftrightarrow>
     t_tag a = t_tag b \<and> t_tag_files a = t_tag_files b \<and> t_parent a = t_parent b
     \<and> t_changeset a = t_changeset b \<and> t_last a = t_last b \<and> t_fixup a = t_fixup b
     \<and> t_fixups a = t_fixups b \<and> t_fixups_curr a = t_fixups_curr b
     \<and> t_is_released a = t_is_released b
     \<and> (t_branch_versions a = None \<longleftrightarrow> t_branch_versions b = None)"

text \<open>
  The tip of a file on a branch, and the delta of a commit changeset: a version of the
  changeset is in the delta when it is used and its live version differs from the live
  tip of its file. The versions to fetch are those of the delta that are live and have
  no mark yet.
\<close>

definition branch_tip :: "state \<Rightarrow> tref \<Rightarrow> fref \<Rightarrow> vref option" where
  "branch_tip s b f = base_version (t_branch_versions (tags s b)) f"

definition in_delta :: "state \<Rightarrow> (fref \<Rightarrow> vref option) \<Rightarrow> vref \<Rightarrow> bool" where
  "in_delta s tip i \<longleftrightarrow>
     v_used (versions s i)
     \<and> version_live s (Some i) \<noteq> version_live s (tip (v_file (versions s i)))"

definition to_fetch :: "state \<Rightarrow> (fref \<Rightarrow> vref option) \<Rightarrow> vref list \<Rightarrow> vref list" where
  "to_fetch s tip vs =
     filter (\<lambda>i. in_delta s tip i \<and> \<not> v_dead (versions s i)
                 \<and> v_mark (versions s i) = SIZE_MAX) vs"

text \<open>The line of a version in a commit record.\<close>

definition file_line_text :: "state \<Rightarrow> vref \<Rightarrow> string" where
  "file_line_text s i =
     (if v_dead (versions s i) then ''D '' @ vpath s i @ NL
      else ''M '' @ (if v_exec (versions s i) then ''755'' else ''644'') @ '' :''
             @ dec (v_mark (versions s i)) @ '' '' @ vpath s i @ NL)"

text \<open>
  The notions of the batching rules: the earliest and the latest time of a set of
  versions, and the \<open>-r\<close> argument of a request by date, which is the tag of the branch of
  a version unless that is the trunk (the empty name).
\<close>

definition earliest :: "state \<Rightarrow> vref list \<Rightarrow> int" where
  "earliest s fetch = Min (set (map (\<lambda>i. v_time (versions s i)) fetch))"

definition latest :: "state \<Rightarrow> vref list \<Rightarrow> int" where
  "latest s fetch = Max (set (map (\<lambda>i. v_time (versions s i)) fetch))"

definition branch_arg :: "state \<Rightarrow> vref \<Rightarrow> string option" where
  "branch_arg s v =
     (case v_branch (versions s v) of
        Some b \<Rightarrow> if t_tag (tags s b) \<noteq> [] then Some (t_tag (tags s b)) else None
      | None \<Rightarrow> None)"

section \<open>A small repository\<close>

text \<open>
  Two files \<open>a\<close> and \<open>b\<close> on the trunk (tag 0, with the empty name). Versions 0 and 1
  are their versions \<open>1.1\<close>, live, used and not fetched; version 2 is \<open>a 1.2\<close>, dead;
  version 3 is \<open>b 1.2\<close>. Changeset 0 holds the two versions \<open>1.1\<close>, changeset 1 the
  deletion of \<open>a\<close>, changeset 2 the version \<open>b 1.2\<close>. The reply of the server is \<open>reply\<close>.
\<close>

definition trunk :: tag_t where
  "trunk = \<lparr>t_tag = [], t_branch_versions = Some (\<lambda>f. None), t_tag_files = [],
     t_parent = None, t_changeset = \<lparr>c_time = 0, c_mark = 0, c_versions = []\<rparr>,
     t_last = None, t_fixup = False, t_fixups = [], t_fixups_curr = 0,
     t_is_released = False\<rparr>"

definition version_1_1 :: "fref \<Rightarrow> version_t" where
  "version_1_1 f = \<lparr>v_file = f, v_version = ''1.1'', v_parent = None, v_branch = Some 0,
     v_author = ''u'', v_log = ''init'', v_time = 100, v_dead = False, v_exec = False,
     v_used = True, v_mark = SIZE_MAX\<rparr>"

definition version_1_2 :: "fref \<Rightarrow> int \<Rightarrow> bool \<Rightarrow> version_t" where
  "version_1_2 f t dead = \<lparr>v_file = f, v_version = ''1.2'', v_parent = Some f,
     v_branch = Some 0, v_author = ''u'', v_log = ''next'', v_time = t, v_dead = dead,
     v_exec = False, v_used = True, v_mark = SIZE_MAX\<rparr>"

definition two_files :: "string \<Rightarrow> state" where
  "two_files reply = \<lparr>
     files = (\<lambda>f. \<lparr>f_path = ''b'', f_versions = [1, 3]\<rparr>)
               (0 := \<lparr>f_path = ''a'', f_versions = [0, 2]\<rparr>),
     nfiles = 2,
     versions = (\<lambda>v. version_1_1 1)
               (0 := version_1_1 0, 2 := version_1_2 0 200 True, 3 := version_1_2 1 250 False),
     tags = (\<lambda>t. trunk), ntags = 1,
     changesets = (\<lambda>c. \<lparr>c_time = 250, c_mark = 0, c_versions = [3]\<rparr>)
               (0 := \<lparr>c_time = 100, c_mark = 0, c_versions = [0, 1]\<rparr>,
                1 := \<lparr>c_time = 200, c_mark = 0, c_versions = [2]\<rparr>),
     mark_counter = 0, out = [],
     s_module = ''m'', s_prefix = ''/r/m/'', s_line = [], s_input = reply, s_sent = [],
     s_count_versions = 0, s_count_transactions = 0\<rparr>"

text \<open>
  The same after changeset 0 has been emitted: the blobs of the versions \<open>1.1\<close> have the
  marks 1 and 2, the commit has the mark 3, and the tips of the trunk are the versions
  \<open>1.1\<close>. Tag 1 is the tag \<open>v1\<close>, placed on changeset 0, that names \<open>a 1.2\<close> (dead) and
  \<open>b 1.1\<close>.
\<close>

definition tag_v1 :: tag_t where
  "tag_v1 = \<lparr>t_tag = ''v1'', t_branch_versions = None, t_tag_files = [2, 1],
     t_parent = Some (CommitCs 0),
     t_changeset = \<lparr>c_time = 150, c_mark = 0, c_versions = []\<rparr>,
     t_last = None, t_fixup = False, t_fixups = [], t_fixups_curr = 0,
     t_is_released = False\<rparr>"

definition after_first_commit :: "string \<Rightarrow> state" where
  "after_first_commit reply = (two_files reply)\<lparr>
     versions := (\<lambda>v. version_1_1 1)
               (0 := (version_1_1 0)\<lparr>v_mark := 1\<rparr>, 1 := (version_1_1 1)\<lparr>v_mark := 2\<rparr>,
                2 := version_1_2 0 200 True, 3 := version_1_2 1 250 False),
     tags := (\<lambda>t. tag_v1)
               (0 := trunk\<lparr>t_branch_versions := Some ((\<lambda>f. None)(0 := Some 0, 1 := Some 1)),
                           t_last := Some (CommitCs 0)\<rparr>),
     ntags := 2,
     changesets := (\<lambda>c. \<lparr>c_time = 250, c_mark = 0, c_versions = [3]\<rparr>)
               (0 := \<lparr>c_time = 100, c_mark = 3, c_versions = [0, 1]\<rparr>,
                1 := \<lparr>c_time = 200, c_mark = 0, c_versions = [2]\<rparr>),
     mark_counter := 3,
     out := [EBlob 1 1, ERaw ''x'', ENewline, EBlob 2 1, ERaw ''y'', ENewline,
             ECommit ''heads'' ''cvs_master'', EMark 3, ECommitter ''u'' 100, EData ''init'',
             EFileM False 1 ''a'', EFileM False 2 ''b'']\<rparr>"

text \<open>
  A format of dates for the examples: the seconds, in decimal.
\<close>

definition epoch_date :: "int \<Rightarrow> string" where
  "epoch_date t = dec_int t"

text \<open>
  A branch \<open>B\<close> (tag 1) placed on changeset 0 that names the dead versions \<open>a 1.2\<close> (time
  200) and \<open>b 1.3\<close> (version 4, time 300), with two changesets of its own: changeset 5
  deletes \<open>a\<close> on the branch at time 250 (version 5) and changeset 6 deletes \<open>b\<close> at time
  350 (version 6).
\<close>

definition dead_on_branch :: "fref \<Rightarrow> int \<Rightarrow> version_t" where
  "dead_on_branch f t = \<lparr>v_file = f, v_version = ''1.1.2.1'', v_parent = Some f,
     v_branch = Some 1, v_author = ''u'', v_log = ''gone'', v_time = t, v_dead = True,
     v_exec = False, v_used = True, v_mark = SIZE_MAX\<rparr>"

definition branch_B :: tag_t where
  "branch_B = \<lparr>t_tag = ''B'', t_branch_versions = Some (\<lambda>f. None), t_tag_files = [2, 4],
     t_parent = Some (CommitCs 0),
     t_changeset = \<lparr>c_time = 150, c_mark = 0, c_versions = []\<rparr>,
     t_last = None, t_fixup = False, t_fixups = [], t_fixups_curr = 0,
     t_is_released = False\<rparr>"

definition with_branch :: state where
  "with_branch = (after_first_commit [])\<lparr>
     versions := (versions (after_first_commit []))
               (4 := (version_1_2 1 300 True)\<lparr>v_version := ''1.3''\<rparr>,
                5 := dead_on_branch 0 250, 6 := dead_on_branch 1 350),
     tags := (tags (after_first_commit []))(1 := branch_B),
     changesets := (changesets (after_first_commit []))
               (5 := \<lparr>c_time = 250, c_mark = 0, c_versions = [5]\<rparr>,
                6 := \<lparr>c_time = 350, c_mark = 0, c_versions = [6]\<rparr>)\<rparr>"

text \<open>
  The same once the branch \<open>B\<close> has been reset on changeset 0: its mark is the mark 3 of
  the parent, its tips are those of the trunk, and the deletions of \<open>a\<close> (time 200) and
  of \<open>b\<close> (time 300) are its pending fix-ups.
\<close>

definition branch_open :: state where
  "branch_open = with_branch\<lparr>
     tags := (tags with_branch)
       (1 := branch_B\<lparr>
          t_branch_versions := Some ((\<lambda>f. None)(0 := Some 0, 1 := Some 1)),
          t_changeset := \<lparr>c_time = 150, c_mark = 3, c_versions = []\<rparr>,
          t_last := Some (TagCs 1),
          t_fixups := [\<lparr>fx_file = 0, fx_version = None, fx_time = 200\<rparr>,
                       \<lparr>fx_file = 1, fx_version = None, fx_time = 300\<rparr>],
          t_is_released := True\<rparr>)\<rparr>"

text \<open>
  The first repository with one more changeset, 7: the dead version \<open>a 1.2\<close> and the
  version \<open>b 1.2\<close>, committed together at time 250.
\<close>

definition with_mixed_commit :: "string \<Rightarrow> state" where
  "with_mixed_commit reply = (two_files reply)\<lparr>
     changesets := (changesets (two_files reply))
               (7 := \<lparr>c_time = 250, c_mark = 0, c_versions = [2, 3]\<rparr>)\<rparr>"

definition reply_b_1_2 :: string where
  "reply_b_1_2 = ''Created ./'' @ NL @ ''/r/m/b'' @ NL @ ''/b/1.2///'' @ NL @ ''u=rw'' @ NL
     @ ''1'' @ NL @ ''z'' @ ''ok'' @ NL"

text \<open>
  The branch \<open>B\<close> with one more changeset of its own, 8: a second dead version of \<open>a\<close>
  on the branch (version 8), at time 350.
\<close>

definition with_branch_again :: state where
  "with_branch_again = with_branch\<lparr>
     versions := (versions with_branch)
               (8 := (dead_on_branch 0 350)\<lparr>v_version := ''1.1.2.2'', v_parent := Some 5\<rparr>),
     changesets := (changesets with_branch)
               (8 := \<lparr>c_time = 350, c_mark = 0, c_versions = [8]\<rparr>)\<rparr>"

text \<open>
  The first repository with the version \<open>b 1.2\<close> on the branch \<open>B\<close> (tag 1) and not on
  the trunk, and a server that answers the first request with the versions \<open>a 1.1\<close> and
  \<open>b 1.2\<close>.
\<close>

definition two_branches :: "string \<Rightarrow> state" where
  "two_branches reply = (two_files reply)\<lparr>
     versions := (versions (two_files reply))(3 := (version_1_2 1 250 False)\<lparr>v_branch := Some 1\<rparr>),
     tags := (tags (two_files reply))(1 := branch_B),
     ntags := 2\<rparr>"

definition reply_a_and_b :: string where
  "reply_a_and_b =
     ''Created ./'' @ NL @ ''/r/m/a'' @ NL @ ''/a/1.1///'' @ NL @ ''u=rw'' @ NL
       @ ''1'' @ NL @ ''x''
     @ ''Created ./'' @ NL @ ''/r/m/b'' @ NL @ ''/b/1.2///'' @ NL @ ''u=rwx'' @ NL
       @ ''1'' @ NL @ ''z'' @ ''ok'' @ NL"

lemmas fetch_defs =
  grab_versions_def grab_by_option_def grab_version_def read_versions_def
  read_versions_loop.simps read_version_def read_entry_def update_dir_def entry_line_def
  find_version_def file_length_def strtoul_def isspace_def isdigit_def digit_val_def
  database_find_file_def file_find_version_def version_live_def version_normalise_def
  vpath_def set_exec_def set_mark_def next_mark_def emit_def next_line_def
  cvs_read_block_def cvs_printf_def cvs_printff_def count_version_def main_directory_def
  directory_def starts_with_def NL_def Let_def SIZE_MAX_def ULONG_MAX_def LONG_MAX_def
  TIME_MAX_def upt_rec

lemmas fixup_defs =
  create_fixups_def fixup_commit_comment_def fixup_header_def upd_tag_def base_array_def
  TIME_MIN_def

lemmas emit_defs =
  print_tag_def print_tag_reset_def print_fixups_def fixup_list_def fixup_commit_def
  fixup_time_def ref_kind_def print_commit_def commit_nothing_def commit_record_def
  file_line_def fixups_fetch_def set_branch_version_def set_tag_mark_def set_commit_mark_def
  cs_mark_def cs_time_def branch_name_def emit_changeset_def emission_def
  changeset_update_branch_versions_def List.map_filter_def dec.simps dec_int_def

lemmas example_defs =
  two_files_def after_first_commit_def version_1_1_def version_1_2_def trunk_def tag_v1_def
  epoch_date_def dead_on_branch_def branch_B_def with_branch_def branch_open_def
  with_mixed_commit_def reply_b_1_2_def with_branch_again_def two_branches_def
  reply_a_and_b_def

section \<open>What the fetch driver changes\<close>

lemma marks_of_append: "marks_of (xs @ ys) = marks_of xs @ marks_of ys"
  by (induction xs rule: marks_of.induct) simp_all

lemma same_meta_refl [simp]: "same_meta a a"
  by (simp add: same_meta_def)

lemma same_tag_refl [simp]: "same_tag a a"
  by (simp add: same_tag_def)

lemma same_tag_trans: "same_tag a b \<Longrightarrow> same_tag b c \<Longrightarrow> same_tag a c"
  by (simp add: same_tag_def)

lemma same_meta_trans: "same_meta a b \<Longrightarrow> same_meta b c \<Longrightarrow> same_meta a c"
  by (simp add: same_meta_def)

lemma new_marks_append:
  "mark_counter s \<le> mark_counter s1 \<Longrightarrow> mark_counter s1 \<le> mark_counter s2 \<Longrightarrow>
   new_marks s s1 @ new_marks s1 s2 = new_marks s s2"
  unfolding new_marks_def
  by (metis Suc_le_mono upt_add_eq_append le_Suc_ex)

lemma marks_step_refl [simp]: "marks_step s s"
  by (simp add: marks_step_def new_marks_def)

lemma marks_step_trans:
  assumes "marks_step s s1" and "marks_step s1 s2"
  shows "marks_step s s2"
proof -
  from assms(1) obtain a1 where a1: "out s1 = out s @ a1" "marks_of a1 = new_marks s s1"
    by (auto simp: marks_step_def)
  from assms(2) obtain a2 where a2: "out s2 = out s1 @ a2" "marks_of a2 = new_marks s1 s2"
    by (auto simp: marks_step_def)
  have le: "mark_counter s \<le> mark_counter s1" "mark_counter s1 \<le> mark_counter s2"
    using assms by (auto simp: marks_step_def)
  have out: "\<exists>added. out s2 = out s @ added \<and> marks_of added = new_marks s s2"
    using a1 a2 new_marks_append[OF le] by (auto simp: marks_of_append)
  have meta: "\<forall>v. same_meta (versions s v) (versions s2 v)"
    using assms by (auto simp: marks_step_def intro: same_meta_trans)
  have stable: "\<forall>v. v_mark (versions s v) \<noteq> SIZE_MAX
      \<longrightarrow> v_mark (versions s2 v) = v_mark (versions s v)"
    using assms by (auto simp: marks_step_def)
  have fresh: "\<forall>v. v_mark (versions s2 v) \<noteq> v_mark (versions s v)
      \<longrightarrow> mark_counter s < v_mark (versions s2 v)
        \<and> v_mark (versions s2 v) \<le> mark_counter s2
        \<and> v_mark (versions s2 v) \<le> LONG_MAX"
  proof (intro allI impI)
    fix v
    assume ch: "v_mark (versions s2 v) \<noteq> v_mark (versions s v)"
    show "mark_counter s < v_mark (versions s2 v)
        \<and> v_mark (versions s2 v) \<le> mark_counter s2
        \<and> v_mark (versions s2 v) \<le> LONG_MAX"
    proof (cases "v_mark (versions s2 v) = v_mark (versions s1 v)")
      case True
      then show ?thesis using ch assms(1) le by (auto simp: marks_step_def)
    next
      case False
      then show ?thesis using assms(2) le by (auto simp: marks_step_def)
    qed
  qed
  have tg: "\<forall>u. same_tag (tags s u) (tags s2 u)"
    using assms by (auto simp: marks_step_def intro: same_tag_trans)
  show ?thesis
    using assms le out meta stable fresh tg by (simp add: marks_step_def)
qed

lemma fetched_refl [simp]: "fetched s s"
  by (simp add: fetched_def)

lemma fetched_trans: "fetched s s1 \<Longrightarrow> fetched s1 s2 \<Longrightarrow> fetched s s2"
  by (auto simp: fetched_def intro: marks_step_trans)

lemma same_db_fetched: "same_db s s' \<Longrightarrow> fetched s s'"
  by (simp add: same_db_def fetched_def marks_step_def new_marks_def)

lemma same_db_refl [simp]: "same_db s s"
  by (simp add: same_db_def)

lemma same_db_trans: "same_db s s1 \<Longrightarrow> same_db s1 s2 \<Longrightarrow> same_db s s2"
  by (simp add: same_db_def)

lemma next_line_same_db: "next_line s = Inr s' \<Longrightarrow> same_db s s'"
  by (auto simp: next_line_def same_db_def split: if_splits prod.splits)

lemma cvs_printf_same_db [simp]: "same_db s (cvs_printf s txt)"
  by (simp add: cvs_printf_def same_db_def)

lemma cvs_printff_same_db [simp]: "same_db s (cvs_printff s txt)"
  by (simp add: cvs_printff_def same_db_def)

lemma read_entry_same_db: "read_entry s = Inr (v, x, len, s4) \<Longrightarrow> same_db s s4"
  by (auto simp: read_entry_def and_then_eq_Inr split: if_splits
        dest!: next_line_same_db intro: same_db_trans)

lemma read_version_fetched:
  assumes "read_version s = Inr s'"
  shows "fetched s s'"
proof (cases "starts_with (s_line s) ''Removed '' \<or> starts_with (s_line s) ''Checked-in ''")
  case True
  then have "same_db s s'"
    using assms
    by (auto simp: read_version_def and_then_eq_Inr split: if_splits
          dest!: next_line_same_db intro: same_db_trans)
  then show ?thesis by (rule same_db_fetched)
next
  case False
  then obtain v x len s4 where re: "read_entry s = Inr (v, x, len, s4)"
    and rest: "(let s5 = set_exec s4 v x
          in if v_mark (versions s5 v) = SIZE_MAX then
               and_then (next_mark s5) (\<lambda>s6.
               and_then (cvs_read_block
                           (emit (set_mark s6 v (mark_counter s6))
                              [EBlob (mark_counter s6) len]) True len) (\<lambda>s8.
                 Inr (emit (count_version s8) [ENewline])))
             else
               and_then (cvs_read_block s5 False len) (\<lambda>s8. Inr (count_version s8))) = Inr s'"
    using assms by (auto simp: read_version_def and_then_eq_Inr)
  have db: "same_db s s4" using re by (rule read_entry_same_db)
  have "fetched s4 s'"
    using rest
    by (auto simp: Let_def and_then_eq_Inr set_exec_def set_mark_def next_mark_def emit_def
          cvs_read_block_def count_version_def fetched_def marks_step_def same_meta_def
          new_marks_def
        split: if_splits)
  then show ?thesis using same_db_fetched[OF db] fetched_trans by blast
qed


lemma read_versions_loop_fetched: "read_versions_loop s = Inr s' \<Longrightarrow> fetched s s'"
proof (induction s rule: read_versions_loop.induct)
  case (1 s)
  from "1.prems" obtain s1 where nl: "next_line s = Inr s1"
    and rest: "(if starts_with (s_line s1) ''M '' \<or> starts_with (s_line s1) ''MT ''
       then read_versions_loop s1
       else if s_line s1 = ''ok'' then Inr s1
       else and_then (read_version s1) (\<lambda>s2. read_versions_loop s2)) = Inr s'"
    by (subst (asm) read_versions_loop.simps) (auto simp: and_then_eq_Inr)
  have f1: "fetched s s1"
    using nl by (intro same_db_fetched next_line_same_db)
  show ?case
  proof (cases "starts_with (s_line s1) ''M '' \<or> starts_with (s_line s1) ''MT ''")
    case True
    then have "fetched s1 s'" using rest "1.IH"(1)[OF nl] by simp
    then show ?thesis using f1 fetched_trans by blast
  next
    case False
    show ?thesis
    proof (cases "s_line s1 = ''ok''")
      case True
      then show ?thesis using rest False f1 by simp
    next
      case ok: False
      then obtain s2 where rv: "read_version s1 = Inr s2" and rl: "read_versions_loop s2 = Inr s'"
        using rest False by (auto simp: and_then_eq_Inr)
      have "fetched s1 s2" using rv by (rule read_version_fetched)
      moreover have "fetched s2 s'" using "1.IH"(2)[OF nl False ok rv rl] .
      ultimately show ?thesis using f1 fetched_trans by blast
    qed
  qed
qed

lemma read_versions_fetched: "read_versions s = Inr s' \<Longrightarrow> fetched s s'"
proof -
  assume r: "read_versions s = Inr s'"
  have "same_db s (s\<lparr>s_count_transactions := (s_count_transactions s + 1) mod (ULONG_MAX + 1)\<rparr>)"
    by (simp add: same_db_def)
  then show ?thesis
    using r read_versions_loop_fetched same_db_fetched fetched_trans
    unfolding read_versions_def by blast
qed

lemma grab_version_fetched: "grab_version s v = Inr s' \<Longrightarrow> fetched s s'"
proof -
  assume g: "grab_version s v = Inr s'"
  show ?thesis
  proof (cases "v_mark (versions s v) \<noteq> SIZE_MAX")
    case True
    then show ?thesis using g by (simp add: grab_version_def)
  next
    case False
    define s1 where "s1 = (case strrchr (vpath s v) CHR ''/'' of
                    None \<Rightarrow> s
                  | Some k \<Rightarrow>
                      if (case v_parent (versions s v) of
                            None \<Rightarrow> True
                          | Some p \<Rightarrow> v_mark (versions s p) = SIZE_MAX)
                      then cvs_printf s (directory s (take k (vpath s v)))
                      else s)"
    define s2 where "s2 = cvs_printf s1 (main_directory s1)"
    define s3 where "s3 = cvs_printff s2
                   (''Argument -kk'' @ NL @
                    ''Argument -r'' @ v_version (versions s2 v) @ NL @
                    ''Argument --'' @ NL @
                    ''Argument '' @ vpath s v @ NL @ ''update'' @ NL)"
    have r: "read_versions s3 = Inr s'"
      using g False unfolding grab_version_def Let_def s3_def s2_def s1_def
      by (auto simp: and_then_eq_Inr split: if_splits)
    have "same_db s s1" unfolding s1_def by (simp split: option.splits)
    moreover have "same_db s1 s2" unfolding s2_def by simp
    moreover have "same_db s2 s3" unfolding s3_def by simp
    ultimately have "same_db s s3" by (blast intro: same_db_trans)
    then show ?thesis
      using r read_versions_fetched same_db_fetched fetched_trans by blast
  qed
qed

lemma declare_dirs_same_db: "same_db s (declare_dirs s d ps)"
proof (induction s d ps rule: declare_dirs.induct)
  case (1 s d)
  then show ?case by simp
next
  case (2 s d p ps)
  then show ?case
    by (auto split: option.splits intro: same_db_trans[OF cvs_printf_same_db])
qed

lemma fold_printf_same_db:
  "same_db s (fold (\<lambda>p t. cvs_printf t (f p)) ps s)"
proof (induction ps arbitrary: s)
  case Nil
  then show ?case by simp
next
  case (Cons p ps)
  show ?case
    using same_db_trans[OF cvs_printf_same_db Cons.IH] by simp
qed

lemma grab_by_option_fetched: "grab_by_option s r d fetch = Inr s' \<Longrightarrow> fetched s s'"
proof -
  assume g: "grab_by_option s r d fetch = Inr s'"
  define paths where "paths = sort (map (vpath s) fetch)"
  define s1 where "s1 = declare_dirs s None paths"
  define s2 where "s2 = cvs_printf s1 (main_directory s1)"
  define s3 where "s3 = (case r of None \<Rightarrow> s2
                  | Some r \<Rightarrow> cvs_printf s2 (''Argument -r'' @ r @ NL))"
  define s4 where "s4 = (case d of None \<Rightarrow> s3
                  | Some d \<Rightarrow> cvs_printf s3 (''Argument -D'' @ d @ NL))"
  define s5 where "s5 = cvs_printf s4 (''Argument -kk'' @ NL @ ''Argument --'' @ NL)"
  define s6 where "s6 = fold (\<lambda>p t. cvs_printf t (''Argument '' @ p @ NL)) paths s5"
  define s7 where "s7 = cvs_printff s6 (''update'' @ NL)"
  have r7: "read_versions s7 = Inr s'"
    using g unfolding grab_by_option_def Let_def s7_def s6_def s5_def s4_def s3_def s2_def
      s1_def paths_def
    by (simp split: if_splits)
  have "same_db s s1" unfolding s1_def by (rule declare_dirs_same_db)
  moreover have "same_db s1 s2" unfolding s2_def by simp
  moreover have "same_db s2 s3" unfolding s3_def by (simp split: option.splits)
  moreover have "same_db s3 s4" unfolding s4_def by (simp split: option.splits)
  moreover have "same_db s4 s5" unfolding s5_def by simp
  moreover have "same_db s5 s6" unfolding s6_def by (rule fold_printf_same_db)
  moreover have "same_db s6 s7" unfolding s7_def by simp
  ultimately have "same_db s s7" by (blast intro: same_db_trans)
  then show ?thesis
    using r7 read_versions_fetched same_db_fetched fetched_trans by blast
qed

lemma grab_each_fetched: "grab_each s fetch = Inr s' \<Longrightarrow> fetched s s'"
proof (induction fetch arbitrary: s)
  case Nil
  then show ?case by simp
next
  case (Cons i rest)
  show ?case
  proof (cases "v_mark (versions s i) = SIZE_MAX")
    case True
    then obtain s1 where g: "grab_version s i = Inr s1" and r: "grab_each s1 rest = Inr s'"
      using Cons.prems by (auto simp: and_then_eq_Inr)
    show ?thesis
      using grab_version_fetched[OF g] Cons.IH[OF r] fetched_trans by blast
  next
    case False
    then show ?thesis using Cons by simp
  qed
qed

lemma grab_versions_fetched: "grab_versions fd s fetch = Inr s' \<Longrightarrow> fetched s s'"
  unfolding grab_versions_def
  by (auto simp: Let_def and_then_eq_Inr split: if_splits prod.splits option.splits
        dest!: grab_version_fetched grab_by_option_fetched grab_each_fetched
        intro: fetched_trans)


text \<open>
  The loops of \<open>grab_versions\<close>: the first tests that every version has the version
  identifier of the first one, the second computes the earliest and the latest time.
\<close>

lemma idver_all:
  "idver s v0 rest = list_all (\<lambda>i. v_version (versions s i) = v_version (versions s v0)) rest"
  by (induction rest) auto

lemma date_range_fold:
  "lo \<le> hi \<Longrightarrow>
   date_range s rest (lo, hi) =
     (fold min (map (\<lambda>i. v_time (versions s i)) rest) lo,
      fold max (map (\<lambda>i. v_time (versions s i)) rest) hi)"
proof (induction rest arbitrary: lo hi)
  case Nil
  then show ?case by simp
next
  case (Cons i rest)
  let ?t = "v_time (versions s i)"
  show ?case
  proof (cases "?t < lo")
    case True
    then have "?t \<le> hi" "min ?t lo = ?t" "max ?t hi = hi"
      using Cons.prems by simp_all
    then show ?thesis
      using True Cons.IH[of ?t hi] by simp
  next
    case False
    show ?thesis
    proof (cases "?t > hi")
      case True
      then have "lo \<le> ?t" "min ?t lo = lo" "max ?t hi = ?t"
        using Cons.prems by simp_all
      then show ?thesis
        using True False Cons.IH[of lo ?t] by simp
    next
      case hi: False
      then have "min ?t lo = lo" "max ?t hi = hi"
        using False by simp_all
      then show ?thesis
        using hi False Cons.IH[OF Cons.prems] by simp
    qed
  qed
qed

lemma date_range_span:
  "date_range s rest (v_time (versions s v0), v_time (versions s v0))
     = (earliest s (v0 # rest), latest s (v0 # rest))"
proof -
  let ?ts = "map (\<lambda>i. v_time (versions s i)) rest"
  let ?t0 = "v_time (versions s v0)"
  have "Min (set (?t0 # ?ts)) = fold min ?ts ?t0"
    by (rule Min.set_eq_fold)
  moreover have "Max (set (?t0 # ?ts)) = fold max ?ts ?t0"
    by (rule Max.set_eq_fold)
  moreover have "map (\<lambda>i. v_time (versions s i)) (v0 # rest) = ?t0 # ?ts"
    by simp
  ultimately show ?thesis
    unfolding earliest_def latest_def
    by (simp only: date_range_fold [OF order_refl])
qed

text \<open>
  The choice that \<open>grab_versions\<close> makes, in terms of the set: whether every version has
  the version identifier of the first, the span of the times, and the branch of the first
  version. The branches of the other versions do not occur.
\<close>

lemma grab_versions_strategy:
  "grab_versions format_date s fetch =
     (if fetch = [] then Inr s
      else if length fetch = 1 then grab_version s (hd fetch)
      else if list_all (\<lambda>i. v_version (versions s i) = v_version (versions s (hd fetch))) fetch
      then grab_by_option s (Some (v_version (versions s (hd fetch)))) None fetch
      else if latest s fetch - earliest s fetch > TIME_MAX
      then Inl (UndefinedBehaviour ''dmax - dmin'')
      else if latest s fetch - earliest s fetch < 300 \<and> v_branch (versions s (hd fetch)) \<noteq> None
      then and_then
             (grab_by_option s (branch_arg s (hd fetch)) (Some (format_date (latest s fetch)))
                fetch)
             (\<lambda>s1. grab_each s1 fetch)
      else grab_each s fetch)"
proof (cases fetch)
  case Nil
  then show ?thesis by (simp add: grab_versions_def)
next
  case (Cons v0 rest)
  show ?thesis
  proof (cases rest)
    case Nil
    then show ?thesis using Cons by (simp add: grab_versions_def)
  next
    case (Cons v1 more)
    have f: "fetch = v0 # rest" "rest \<noteq> []" "length fetch \<noteq> 1"
      using \<open>fetch = v0 # rest\<close> Cons by simp_all
    show ?thesis
      unfolding grab_versions_def
      by (simp add: f idver_all date_range_span branch_arg_def split: option.splits)
  qed
qed

section \<open>What the emitter changes\<close>

lemma marks_step_upd_tag:
  "same_tag (tags s t) (f (tags s t)) \<Longrightarrow> marks_step s (upd_tag s t f)"
  by (simp add: marks_step_def upd_tag_def new_marks_def)

lemma marks_step_set_commit_mark [simp]: "marks_step s (set_commit_mark s c m)"
  by (simp add: marks_step_def set_commit_mark_def new_marks_def)

lemma marks_step_set_tag_mark [simp]: "marks_step s (set_tag_mark s t m)"
  by (simp add: set_tag_mark_def marks_step_upd_tag same_tag_def)

lemma marks_step_set_branch_version [simp]: "marks_step s (set_branch_version s t i v)"
  by (simp add: set_branch_version_def marks_step_upd_tag same_tag_def split: option.splits)

lemma marks_step_flag [simp]: "marks_step s (upd_tag s t (\<lambda>tg. tg\<lparr>t_fixup := True\<rparr>))"
  by (simp add: marks_step_upd_tag same_tag_def)

lemma marks_step_last [simp]: "marks_step s (upd_tag s t (\<lambda>tg. tg\<lparr>t_last := l\<rparr>))"
  by (simp add: marks_step_upd_tag same_tag_def)

lemma marks_step_curr [simp]: "marks_step s (upd_tag s t (\<lambda>tg. tg\<lparr>t_fixups_curr := n\<rparr>))"
  by (simp add: marks_step_upd_tag same_tag_def)

lemma marks_step_emit: "marks_of es = [] \<Longrightarrow> marks_step s (emit s es)"
  by (simp add: marks_step_def emit_def new_marks_def)

lemma fetched_marks_step: "fetched s s' \<Longrightarrow> marks_step s s'"
  by (simp add: fetched_def)

text \<open>Taking the next mark and writing a record that defines it.\<close>

lemma marks_step_next_mark:
  assumes "next_mark s = Inr s1"
    and "files s2 = files s1" "nfiles s2 = nfiles s1" "ntags s2 = ntags s1"
    and "s_module s2 = s_module s1" "s_prefix s2 = s_prefix s1"
    and "versions s2 = versions s1" "mark_counter s2 = mark_counter s1"
    and "\<forall>u. same_tag (tags s1 u) (tags s2 u)"
    and "\<forall>c. c_time (changesets s2 c) = c_time (changesets s1 c)
           \<and> c_versions (changesets s2 c) = c_versions (changesets s1 c)"
    and "marks_of es = [mark_counter s1]" "out s2 = out s1 @ es"
  shows "marks_step s s2"
  using assms
  by (auto simp: marks_step_def next_mark_def new_marks_def split: if_splits)

lemma fixups_delta_step:
  "fixups_delta s base t fx = Inr s' \<Longrightarrow>
   marks_step s s' \<and> changesets s' = changesets s \<and> versions s' = versions s
     \<and> mark_counter s' = mark_counter s"
proof (induction fx arbitrary: s)
  case Nil
  then show ?case by simp
next
  case (Cons e fx)
  define s1 where "s1 = set_branch_version
      (emit s [case fx_version e of
                 Some r \<Rightarrow> EFileM (v_exec (versions s r)) (v_mark (versions s r)) (vpath s r)
               | None \<Rightarrow> (case (case base_array s base of None \<Rightarrow> None
                                  | Some b \<Rightarrow> version_live s (b (fx_file e))) of
                            Some b \<Rightarrow> EFileD (vpath s b) | None \<Rightarrow> EFileD [])])
      t (fx_file e) (fx_version e)"
  have r: "fixups_delta s1 base t fx = Inr s'"
    using Cons.prems unfolding s1_def by (simp add: Let_def split: if_splits)
  have one: "marks_step s s1 \<and> changesets s1 = changesets s \<and> versions s1 = versions s
     \<and> mark_counter s1 = mark_counter s"
    unfolding s1_def
    by (auto simp: set_branch_version_def upd_tag_def emit_def marks_step_def new_marks_def
          same_tag_def split: option.splits)
  show ?case
    using Cons.IH[OF r] one marks_step_trans by auto
qed

lemma fixup_list_step:
  "fixup_list s t cs = (fixups, s0) \<Longrightarrow>
   s0 = upd_tag s t (\<lambda>tg. tg\<lparr>t_fixups_curr := t_fixups_curr tg + length fixups\<rparr>)"
  by (auto simp: fixup_list_def Let_def)

lemma fixup_commit_step:
  assumes "fixup_commit s t = Inr s'"
  shows "marks_step s s' \<and> changesets s' = changesets s"
proof -
  obtain s2 where nm: "next_mark (upd_tag s t (\<lambda>tg. tg\<lparr>t_fixup := True\<rparr>)) = Inr s2"
    and s': "s' = emit (set_tag_mark s2 t (mark_counter s2))
                 [ECommit (ref_kind (set_tag_mark s2 t (mark_counter s2)) t)
                    (branch_name (t_tag (tags (set_tag_mark s2 t (mark_counter s2)) t))),
                  EMark (c_mark (t_changeset (tags (set_tag_mark s2 t (mark_counter s2)) t))),
                  ECommitter ''crap'' (fixup_time (set_tag_mark s2 t (mark_counter s2)) t)]"
    using assms by (auto simp: fixup_commit_def and_then_eq_Inr Let_def)
  have "marks_step (upd_tag s t (\<lambda>tg. tg\<lparr>t_fixup := True\<rparr>)) s'"
    by (rule marks_step_next_mark[OF nm])
       (simp_all add: s' emit_def set_tag_mark_def upd_tag_def same_tag_def)
  then have "marks_step s s'"
    using marks_step_flag marks_step_trans by blast
  moreover have "changesets s' = changesets s"
    using nm
    by (auto simp: s' emit_def set_tag_mark_def upd_tag_def next_mark_def split: if_splits)
  ultimately show ?thesis by simp
qed

lemma print_fixups_step:
  assumes "print_fixups fd s base t cs = Inr s'"
  shows "marks_step s s' \<and> changesets s' = changesets s"
proof -
  obtain fixups s0 where fl: "fixup_list s t cs = (fixups, s0)"
    by (cases "fixup_list s t cs") auto
  have "marks_step s s0"
    unfolding fixup_list_step[OF fl] by (simp add: marks_step_upd_tag same_tag_def)
  moreover have "changesets s0 = changesets s"
    unfolding fixup_list_step[OF fl] by (simp add: upd_tag_def)
  ultimately have s0: "marks_step s s0" "changesets s0 = changesets s"
    by simp_all
  show ?thesis
  proof (cases "fixups = []")
    case True
    then show ?thesis using assms fl s0 by (simp add: print_fixups_def)
  next
    case False
    then obtain s1 s4 comment where
      g: "grab_versions fd s0 (fixups_fetch s0 fixups) = Inr s1"
      and fc: "fixup_commit s1 t = Inr s4"
      and d: "fixups_delta (emit s4 [EDataLen (length comment), ERaw comment])
                 base t fixups = Inr s'"
      using assms fl unfolding print_fixups_def
      by (auto simp: and_then_eq_Inr)
    define s5 where "s5 = emit s4 [EDataLen (length comment), ERaw comment]"
    have f1: "marks_step s0 s1" "changesets s1 = changesets s0"
      using grab_versions_fetched[OF g] by (simp_all add: fetched_def)
    have f2: "marks_step s1 s4" "changesets s4 = changesets s1"
      using fixup_commit_step[OF fc] by simp_all
    have f3: "marks_step s4 s5" "changesets s5 = changesets s4"
      by (simp_all add: s5_def marks_step_emit) (simp add: emit_def)
    have f4: "marks_step s5 s'" "changesets s' = changesets s5"
      using fixups_delta_step[OF d[folded s5_def]] by simp_all
    have "marks_step s s1"
      using s0(1) f1(1) by (rule marks_step_trans)
    then have "marks_step s s4"
      using f2(1) by (rule marks_step_trans)
    then have "marks_step s s5"
      using f3(1) by (rule marks_step_trans)
    then have "marks_step s s'"
      using f4(1) by (rule marks_step_trans)
    then show ?thesis
      using s0(2) f1(2) f2(2) f3(2) f4(2) by simp
  qed
qed

lemma commit_nothing_step:
  "commit_nothing s c b = Inr s' \<Longrightarrow>
   marks_step s s' \<and> (\<forall>c'. c' \<noteq> c \<longrightarrow> changesets s' c' = changesets s c')
     \<and> out s' = out s \<and> mark_counter s' = mark_counter s"
  by (auto simp: commit_nothing_def marks_step_def upd_tag_def set_commit_mark_def
        new_marks_def same_tag_def split: option.splits if_splits)

lemma commit_record_step:
  assumes "commit_record s c v b = Inr s'"
  shows "marks_step s s' \<and> (\<forall>c'. c' \<noteq> c \<longrightarrow> changesets s' c' = changesets s c')"
proof -
  obtain s3 where nm: "next_mark (upd_tag s b (\<lambda>tg. tg\<lparr>t_last := Some (CommitCs c)\<rparr>)) = Inr s3"
    and s': "s' = emit (set_commit_mark s3 c (mark_counter s3))
                 ([ECommit ''heads''
                     (branch_name (t_tag (tags (set_commit_mark s3 c (mark_counter s3)) b))),
                   EMark (c_mark (changesets (set_commit_mark s3 c (mark_counter s3)) c)),
                   ECommitter (v_author (versions (set_commit_mark s3 c (mark_counter s3)) v))
                     (c_time (changesets (set_commit_mark s3 c (mark_counter s3)) c)),
                   EData (v_log (versions (set_commit_mark s3 c (mark_counter s3)) v))]
                  @ map (file_line (set_commit_mark s3 c (mark_counter s3)))
                      (filter (\<lambda>i. v_used (versions (set_commit_mark s3 c (mark_counter s3)) i))
                         (c_versions (changesets (set_commit_mark s3 c (mark_counter s3)) c))))"
    using assms by (auto simp: commit_record_def and_then_eq_Inr Let_def)
  have lines: "\<And>st vs. marks_of (map (file_line st) vs) = []"
  proof -
    fix st vs show "marks_of (map (file_line st) vs) = []"
      by (induction vs) (auto simp: file_line_def split: option.splits)
  qed
  have "marks_step (upd_tag s b (\<lambda>tg. tg\<lparr>t_last := Some (CommitCs c)\<rparr>)) s'"
    by (rule marks_step_next_mark[OF nm])
       (simp_all add: s' emit_def set_commit_mark_def upd_tag_def lines)
  then have "marks_step s s'"
    using marks_step_last marks_step_trans by blast
  moreover have "\<forall>c'. c' \<noteq> c \<longrightarrow> changesets s' c' = changesets s c'"
    using nm
    by (auto simp: s' emit_def set_commit_mark_def upd_tag_def next_mark_def split: if_splits)
  ultimately show ?thesis by simp
qed

lemma print_commit_step:
  assumes "print_commit fd s c = Inr s'"
  shows "marks_step s s' \<and> (\<forall>c'. c' \<noteq> c \<longrightarrow> changesets s' c' = changesets s c')"
proof -
  obtain v others where vs: "c_versions (changesets s c) = v # others"
    using assms by (cases "c_versions (changesets s c)") (auto simp: print_commit_def)
  obtain b where b: "v_branch (versions s v) = Some b"
    using assms vs by (cases "v_branch (versions s v)") (auto simp: print_commit_def)
  obtain s1 where pf: "print_fixups fd s (Some b) b (Some (CommitCs c)) = Inr s1"
    and rest1: "(case commit_delta s1
                      (case t_branch_versions (tags s1 b) of
                         Some tip \<Rightarrow> tip | None \<Rightarrow> (\<lambda>f. None))
                      (c_versions (changesets s1 c)) (True, []) of
                 (nil, fetch) \<Rightarrow>
                   if nil then commit_nothing s1 c b
                   else and_then (grab_versions fd s1 fetch)
                          (\<lambda>s2. commit_record s2 c v b)) = Inr s'"
    using assms vs b by (auto simp: print_commit_def and_then_eq_Inr split: if_splits)
  obtain nil fetch where
    rest: "(if nil then commit_nothing s1 c b
                else and_then (grab_versions fd s1 fetch) (\<lambda>s2. commit_record s2 c v b)) = Inr s'"
    using rest1 by (auto split: prod.splits)
  have f1: "marks_step s s1" "changesets s1 = changesets s"
    using print_fixups_step[OF pf] by simp_all
  show ?thesis
  proof (cases nil)
    case True
    then show ?thesis
      using rest f1 commit_nothing_step[of s1 c b s'] marks_step_trans by auto
  next
    case False
    then obtain s2 where g: "grab_versions fd s1 fetch = Inr s2"
      and cr: "commit_record s2 c v b = Inr s'"
      using rest by (auto simp: and_then_eq_Inr)
    have f2: "marks_step s1 s2" "changesets s2 = changesets s1"
      using grab_versions_fetched[OF g] by (simp_all add: fetched_def)
    have "marks_step s s2" using f1(1) f2(1) by (rule marks_step_trans)
    then have "marks_step s s'"
      using commit_record_step[OF cr] marks_step_trans by blast
    then show ?thesis
      using commit_record_step[OF cr] f1(2) f2(2) by simp
  qed
qed

lemma create_fixups_step:
  "create_fixups s base t = Inr s' \<Longrightarrow>
   marks_step s s' \<and> changesets s' = changesets s \<and> out s' = out s
     \<and> mark_counter s' = mark_counter s"
  by (auto simp: create_fixups_def marks_step_upd_tag same_tag_def split: if_splits)
     (simp_all add: upd_tag_def)

lemma print_tag_reset_step:
  assumes "print_tag_reset s t = Inr (branch, s1)"
  shows "marks_step s s1 \<and> changesets s1 = changesets s"
proof -
  define s2 where "s2 = emit s [EReset (ref_kind s t) (branch_name (t_tag (tags s t)))]"
  define s3 where "s3 = set_tag_mark s2 t
                       (case t_parent (tags s2 t) of Some p \<Rightarrow> cs_mark s2 p | None \<Rightarrow> 0)"
  define s4 where "s4 = (if c_mark (t_changeset (tags s3 t)) \<noteq> 0
                         then emit s3 [EFrom (c_mark (t_changeset (tags s3 t)))] else s3)"
  have s1: "s1 = upd_tag s4 t (\<lambda>tg. tg\<lparr>t_last := Some (TagCs t)\<rparr>)"
    using assms unfolding print_tag_reset_def s4_def s3_def s2_def
    by (auto simp: and_then_eq_Inr Let_def split: if_splits)
  have "marks_step s s2" "changesets s2 = changesets s"
    unfolding s2_def by (simp_all add: marks_step_emit) (simp add: emit_def)
  moreover have "marks_step s2 s3" "changesets s3 = changesets s2"
    unfolding s3_def by simp_all (simp add: set_tag_mark_def upd_tag_def)
  moreover have "marks_step s3 s4" "changesets s4 = changesets s3"
    unfolding s4_def by (simp_all add: marks_step_emit) (simp add: emit_def)
  moreover have "marks_step s4 s1" "changesets s1 = changesets s4"
    unfolding s1 by simp_all (simp add: upd_tag_def)
  ultimately show ?thesis
    by (auto intro: marks_step_trans)
qed

lemma print_tag_step:
  assumes "print_tag fd s t = Inr s'"
  shows "marks_step s s' \<and> changesets s' = changesets s"
proof -
  obtain branch s1 s2 where r: "print_tag_reset s t = Inr (branch, s1)"
    and cf: "create_fixups s1 (base_array s1 branch) t = Inr s2"
    and rest: "(case t_branch_versions (tags s2 t) of
         Some mine \<Rightarrow>
           (case branch of
              None \<Rightarrow>
                Inr (upd_tag s2 t (\<lambda>tg. tg\<lparr>t_branch_versions :=
                       Some (\<lambda>f. if f < nfiles s2 then None else mine f)\<rparr>))
            | Some b \<Rightarrow>
                (case t_branch_versions (tags s2 b) of
                   None \<Rightarrow> Inl (UndefinedBehaviour ''branch->branch_versions'')
                 | Some theirs \<Rightarrow>
                     Inr (upd_tag s2 t (\<lambda>tg. tg\<lparr>t_branch_versions :=
                            Some (\<lambda>f. if f < nfiles s2 then theirs f else mine f)\<rparr>))))
       | None \<Rightarrow> print_fixups fd s2 branch t None) = Inr s'"
    using assms unfolding print_tag_def by (auto simp: and_then_eq_Inr)
  have f1: "marks_step s s1" "changesets s1 = changesets s"
    using print_tag_reset_step[OF r] by simp_all
  have f2: "marks_step s1 s2" "changesets s2 = changesets s1"
    using create_fixups_step[OF cf] by simp_all
  have f3: "marks_step s2 s' \<and> changesets s' = changesets s2"
  proof (cases "t_branch_versions (tags s2 t)")
    case None
    then show ?thesis using rest print_fixups_step by simp
  next
    case (Some mine)
    then obtain arr where "s' = upd_tag s2 t (\<lambda>tg. tg\<lparr>t_branch_versions := Some arr\<rparr>)"
      using rest by (auto split: option.splits)
    then show ?thesis
      using Some by (simp add: marks_step_upd_tag same_tag_def) (simp add: upd_tag_def)
  qed
  have "marks_step s s2" using f1(1) f2(1) by (rule marks_step_trans)
  then have "marks_step s s'" using f3 marks_step_trans by blast
  then show ?thesis using f1(2) f2(2) f3 by simp
qed

lemma tip_step_step:
  "marks_step s (tip_step b i s) \<and> changesets (tip_step b i s) = changesets s"
  by (simp add: tip_step_def) (simp add: set_branch_version_def upd_tag_def split: option.splits)

lemma fold_tip_step:
  "marks_step s (fold (tip_step b) vs s) \<and> changesets (fold (tip_step b) vs s) = changesets s"
proof (induction vs arbitrary: s)
  case Nil
  then show ?case by simp
next
  case (Cons i vs)
  have one: "marks_step s (tip_step b i s)" "changesets (tip_step b i s) = changesets s"
    using tip_step_step by simp_all
  have ih: "marks_step (tip_step b i s) (fold (tip_step b) vs (tip_step b i s))"
    "changesets (fold (tip_step b) vs (tip_step b i s)) = changesets (tip_step b i s)"
    using Cons.IH by simp_all
  have "marks_step s (fold (tip_step b) vs (tip_step b i s))"
    using one(1) ih(1) by (rule marks_step_trans)
  then show ?case using one(2) ih(2) by simp
qed

lemma changeset_update_branch_versions_step:
  "marks_step s (changeset_update_branch_versions s c)
   \<and> changesets (changeset_update_branch_versions s c) = changesets s"
proof -
  have eq: "\<And>b. (\<lambda>i st. if v_used (versions st i)
                then set_branch_version st b (v_file (versions st i)) (Some i)
                else st) = tip_step b"
    by (intro ext) (simp add: tip_step_def)
  show ?thesis
    unfolding changeset_update_branch_versions_def
    by (simp add: eq fold_tip_step split: list.splits option.splits)
qed

lemma emit_changeset_step:
  assumes "emit_changeset fd s cs = Inr s'"
  shows "marks_step s s' \<and> (\<forall>c. CommitCs c \<noteq> cs \<longrightarrow> changesets s' c = changesets s c)"
proof (cases cs)
  case (CommitCs c)
  then obtain s1 where pc: "print_commit fd s c = Inr s1"
    and s': "s' = changeset_update_branch_versions s1 c"
    using assms by (auto simp: emit_changeset_def and_then_eq_Inr)
  have "marks_step s s1" using print_commit_step[OF pc] by simp
  moreover have "marks_step s1 s'"
    unfolding s' using changeset_update_branch_versions_step by simp
  ultimately have "marks_step s s'" by (rule marks_step_trans)
  moreover have "\<forall>c'. c' \<noteq> c \<longrightarrow> changesets s' c' = changesets s c'"
    unfolding s' using print_commit_step[OF pc] changeset_update_branch_versions_step by simp
  ultimately show ?thesis using CommitCs by simp
next
  case (TagCs t)
  then have pt: "print_tag fd (upd_tag s t (\<lambda>tg. tg\<lparr>t_is_released := True\<rparr>)) t = Inr s'"
    using assms by (simp add: emit_changeset_def)
  have "marks_step s (upd_tag s t (\<lambda>tg. tg\<lparr>t_is_released := True\<rparr>))"
    by (simp add: marks_step_upd_tag same_tag_def)
  then have "marks_step s s'"
    using print_tag_step[OF pt] marks_step_trans by blast
  moreover have "changesets s' = changesets s"
    using print_tag_step[OF pt] by (simp add: upd_tag_def)
  ultimately show ?thesis by simp
qed

lemma emit_changesets_step:
  "emit_changesets fd s order = Inr s' \<Longrightarrow>
   marks_step s s' \<and> (\<forall>c. CommitCs c \<notin> set order \<longrightarrow> changesets s' c = changesets s c)"
proof (induction order arbitrary: s)
  case Nil
  then show ?case by simp
next
  case (Cons cs order)
  then obtain s1 where e: "emit_changeset fd s cs = Inr s1"
    and r: "emit_changesets fd s1 order = Inr s'"
    by (auto simp: and_then_eq_Inr)
  have one: "marks_step s s1" "\<forall>c. CommitCs c \<noteq> cs \<longrightarrow> changesets s1 c = changesets s c"
    using emit_changeset_step[OF e] by simp_all
  have ih: "marks_step s1 s'"
    "\<forall>c. CommitCs c \<notin> set order \<longrightarrow> changesets s' c = changesets s1 c"
    using Cons.IH[OF r] by simp_all
  have "marks_step s s'" using one(1) ih(1) by (rule marks_step_trans)
  then show ?case using one(2) ih(2) by auto
qed

lemma final_fixups_step:
  "final_fixups fd s ts = Inr s' \<Longrightarrow> marks_step s s' \<and> changesets s' = changesets s"
proof (induction ts arbitrary: s)
  case Nil
  then show ?case by simp
next
  case (Cons t ts)
  show ?case
  proof (cases "t_branch_versions (tags s t) \<noteq> None")
    case True
    then obtain s1 where p: "print_fixups fd s (Some t) t None = Inr s1"
      and r: "final_fixups fd s1 ts = Inr s'"
      using Cons.prems by (auto simp: and_then_eq_Inr)
    have one: "marks_step s s1" "changesets s1 = changesets s"
      using print_fixups_step[OF p] by simp_all
    have ih: "marks_step s1 s'" "changesets s' = changesets s1"
      using Cons.IH[OF r] by simp_all
    have "marks_step s s'" using one(1) ih(1) by (rule marks_step_trans)
    then show ?thesis using one(2) ih(2) by simp
  next
    case False
    then show ?thesis using Cons by simp
  qed
qed

lemma emission_step:
  assumes "emission fd s order = Inr s'"
  shows "marks_step s s' \<and> (\<forall>c. CommitCs c \<notin> set order \<longrightarrow> changesets s' c = changesets s c)"
proof -
  obtain s1 where e: "emit_changesets fd s order = Inr s1"
    and f: "final_fixups fd s1 [0..<ntags s1] = Inr s'"
    using assms by (auto simp: emission_def and_then_eq_Inr)
  have one: "marks_step s s1"
    "\<forall>c. CommitCs c \<notin> set order \<longrightarrow> changesets s1 c = changesets s c"
    using emit_changesets_step[OF e] by simp_all
  have two: "marks_step s1 s'" "changesets s' = changesets s1"
    using final_fixups_step[OF f] by simp_all
  have "marks_step s s'" using one(1) two(1) by (rule marks_step_trans)
  then show ?thesis using one(2) two(2) by simp
qed

lemma render_all_append: "render_all (xs @ ys) = render_all xs @ render_all ys"
  by (simp add: render_all_def)

lemma marks_step_out: "marks_step s s' \<Longrightarrow> \<exists>added. out s' = out s @ added"
  by (auto simp: marks_step_def)

lemma fixup_time_cong:
  assumes "tags s' t = (tags s t)\<lparr>t_fixup := x, t_fixups_curr := n,
              t_changeset := (t_changeset (tags s t))\<lparr>c_mark := m\<rparr>\<rparr>"
    and "\<forall>u. u \<noteq> t \<longrightarrow> tags s' u = tags s u" and "changesets s' = changesets s"
  shows "fixup_time s' t = fixup_time s t \<and> ref_kind s' t = ref_kind s t
         \<and> t_tag (tags s' t) = t_tag (tags s t)"
proof -
  have tm: "c_time (t_changeset (tags s' u)) = c_time (t_changeset (tags s u))" for u
    using assms by (cases "u = t") simp_all
  show ?thesis
    using assms(1,3) tm
    by (auto simp: fixup_time_def ref_kind_def cs_time_def split: option.splits cs_ref.splits)
qed

lemma fixups_delta_tags:
  "fixups_delta s base t fx = Inr s' \<Longrightarrow> \<forall>u. only_tips (tags s u) (tags s' u)"
proof (induction fx arbitrary: s)
  case Nil
  then show ?case by (simp add: only_tips_def)
next
  case (Cons e fx)
  define s1 where "s1 = set_branch_version
      (emit s [case fx_version e of
                 Some r \<Rightarrow> EFileM (v_exec (versions s r)) (v_mark (versions s r)) (vpath s r)
               | None \<Rightarrow> (case (case base_array s base of None \<Rightarrow> None
                                  | Some b \<Rightarrow> version_live s (b (fx_file e))) of
                            Some b \<Rightarrow> EFileD (vpath s b) | None \<Rightarrow> EFileD [])])
      t (fx_file e) (fx_version e)"
  have r: "fixups_delta s1 base t fx = Inr s'"
    using Cons.prems unfolding s1_def by (simp add: Let_def split: if_splits)
  have one: "\<forall>u. only_tips (tags s u) (tags s1 u)"
    unfolding s1_def
    by (auto simp: only_tips_def set_branch_version_def upd_tag_def emit_def
          split: option.splits)
  show ?case
    using one Cons.IH[OF r] by (auto simp: only_tips_def)
qed

lemma fixup_commit_out:
  assumes "fixup_commit s t = Inr s'"
  shows "out s' = out s @ [ECommit (ref_kind s t) (branch_name (t_tag (tags s t))),
                           EMark (Suc (mark_counter s)),
                           ECommitter ''crap'' (fixup_time s t)]
         \<and> mark_counter s' = Suc (mark_counter s)
         \<and> c_mark (t_changeset (tags s' t)) = Suc (mark_counter s)"
proof -
  obtain s2 where nm: "next_mark (upd_tag s t (\<lambda>tg. tg\<lparr>t_fixup := True\<rparr>)) = Inr s2"
    and s': "s' = emit (set_tag_mark s2 t (mark_counter s2))
                 [ECommit (ref_kind (set_tag_mark s2 t (mark_counter s2)) t)
                    (branch_name (t_tag (tags (set_tag_mark s2 t (mark_counter s2)) t))),
                  EMark (c_mark (t_changeset (tags (set_tag_mark s2 t (mark_counter s2)) t))),
                  ECommitter ''crap'' (fixup_time (set_tag_mark s2 t (mark_counter s2)) t)]"
    using assms by (auto simp: fixup_commit_def and_then_eq_Inr Let_def)
  have s2: "s2 = (upd_tag s t (\<lambda>tg. tg\<lparr>t_fixup := True\<rparr>))\<lparr>mark_counter := Suc (mark_counter s)\<rparr>"
    using nm by (auto simp: next_mark_def upd_tag_def split: if_splits)
  have c: "fixup_time (set_tag_mark s2 t (mark_counter s2)) t = fixup_time s t
         \<and> ref_kind (set_tag_mark s2 t (mark_counter s2)) t = ref_kind s t
         \<and> t_tag (tags (set_tag_mark s2 t (mark_counter s2)) t) = t_tag (tags s t)"
    by (rule fixup_time_cong[where x = True and n = "t_fixups_curr (tags s t)"
          and m = "Suc (mark_counter s)"])
       (simp_all add: s2 set_tag_mark_def upd_tag_def)
  show ?thesis
    using c by (simp add: s') (simp add: s2 emit_def set_tag_mark_def upd_tag_def)
qed

lemma print_fixups_out:
  assumes "print_fixups fd s base t cs = Inr s'"
    and "fst (fixup_list s t cs) \<noteq> []"
  shows "\<exists>s1 rest.
     grab_versions fd (snd (fixup_list s t cs))
       (fixups_fetch (snd (fixup_list s t cs)) (fst (fixup_list s t cs))) = Inr s1
     \<and> out s' = out s1 @ [ECommit (ref_kind s t) (branch_name (t_tag (tags s t))),
                           EMark (Suc (mark_counter s1)),
                           ECommitter ''crap'' (fixup_time s t)] @ rest
     \<and> c_mark (t_changeset (tags s' t)) = Suc (mark_counter s1)
     \<and> mark_counter s' = Suc (mark_counter s1)"
proof -
  obtain fixups s0 where fl: "fixup_list s t cs = (fixups, s0)"
    by (cases "fixup_list s t cs") auto
  have ne: "fixups \<noteq> []" using assms(2) fl by simp
  have s0: "s0 = upd_tag s t (\<lambda>tg. tg\<lparr>t_fixups_curr := t_fixups_curr tg + length fixups\<rparr>)"
    using fixup_list_step[OF fl] .
  obtain s1 s4 comment where
    g: "grab_versions fd s0 (fixups_fetch s0 fixups) = Inr s1"
    and fc: "fixup_commit s1 t = Inr s4"
    and d: "fixups_delta (emit s4 [EDataLen (length comment), ERaw comment])
               base t fixups = Inr s'"
    using assms(1) fl ne unfolding print_fixups_def
    by (auto simp: and_then_eq_Inr)
  have f: "tags s1 = tags s0" "changesets s1 = changesets s0"
    using grab_versions_fetched[OF g] by (simp_all add: fetched_def)
  have c: "fixup_time s1 t = fixup_time s t \<and> ref_kind s1 t = ref_kind s t
         \<and> t_tag (tags s1 t) = t_tag (tags s t)"
    by (rule fixup_time_cong[where x = "t_fixup (tags s t)"
          and n = "t_fixups_curr (tags s t) + length fixups"
          and m = "c_mark (t_changeset (tags s t))"])
       (simp_all add: f s0 upd_tag_def)
  obtain rest where rest: "out s' = out (emit s4 [EDataLen (length comment), ERaw comment]) @ rest"
    using fixups_delta_step[OF d] marks_step_out by blast
  have "only_tips (tags (emit s4 [EDataLen (length comment), ERaw comment]) t) (tags s' t)"
    using fixups_delta_tags[OF d] by blast
  then have m: "c_mark (t_changeset (tags s' t)) = c_mark (t_changeset (tags s4 t))"
    "mark_counter s' = mark_counter s4"
    using fixups_delta_step[OF d] by (simp_all add: emit_def only_tips_def)
  show ?thesis
    using g fl c fixup_commit_out[OF fc] rest m
    by (simp add: emit_def)
qed


lemma fixup_time_timestamp: "own_last s t \<Longrightarrow> fixup_time s t = fixup_timestamp s t"
  by (auto simp: own_last_def fixup_time_def fixup_timestamp_def cs_time_def
        split: option.splits cs_ref.splits)

lemma print_tag_reset_out:
  assumes "print_tag_reset s t = Inr (branch, s1)"
  shows "c_mark (t_changeset (tags s1 t)) = parent_mark s t
     \<and> out s1 = out s @ EReset (ref_kind s t) (branch_name (t_tag (tags s t)))
                  # (if parent_mark s t \<noteq> 0 then [EFrom (parent_mark s t)] else [])
     \<and> (t_branch_versions (tags s1 t) = None \<longleftrightarrow> t_branch_versions (tags s t) = None)
     \<and> mark_counter s1 = mark_counter s"
proof -
  define s2 where "s2 = emit s [EReset (ref_kind s t) (branch_name (t_tag (tags s t)))]"
  define s3 where "s3 = set_tag_mark s2 t
                       (case t_parent (tags s2 t) of Some p \<Rightarrow> cs_mark s2 p | None \<Rightarrow> 0)"
  define s4 where "s4 = (if c_mark (t_changeset (tags s3 t)) \<noteq> 0
                         then emit s3 [EFrom (c_mark (t_changeset (tags s3 t)))] else s3)"
  have s1: "s1 = upd_tag s4 t (\<lambda>tg. tg\<lparr>t_last := Some (TagCs t)\<rparr>)"
    using assms unfolding print_tag_reset_def s4_def s3_def s2_def
    by (auto simp: and_then_eq_Inr Let_def split: if_splits)
  have pm: "(case t_parent (tags s2 t) of Some p \<Rightarrow> cs_mark s2 p | None \<Rightarrow> 0) = parent_mark s t"
    by (simp add: s2_def emit_def parent_mark_def cs_mark_def
          split: option.splits cs_ref.splits)
  have m3: "c_mark (t_changeset (tags s3 t)) = parent_mark s t"
    by (simp add: s3_def pm set_tag_mark_def upd_tag_def)
  have c1: "c_mark (t_changeset (tags s1 t)) = parent_mark s t"
    using m3 by (simp add: s1 s4_def upd_tag_def emit_def)
  have o3: "out s3 = out s @ [EReset (ref_kind s t) (branch_name (t_tag (tags s t)))]"
    by (simp add: s3_def s2_def set_tag_mark_def upd_tag_def emit_def)
  have c2: "out s1 = out s @ EReset (ref_kind s t) (branch_name (t_tag (tags s t)))
                  # (if parent_mark s t \<noteq> 0 then [EFrom (parent_mark s t)] else [])"
    using o3 m3 by (simp add: s1 s4_def upd_tag_def emit_def)
  have c3: "t_branch_versions (tags s1 t) = None \<longleftrightarrow> t_branch_versions (tags s t) = None"
    by (simp add: s1 s4_def s3_def s2_def set_tag_mark_def upd_tag_def emit_def)
  have c4: "mark_counter s1 = mark_counter s"
    by (simp add: s1 s4_def s3_def s2_def set_tag_mark_def upd_tag_def emit_def)
  show ?thesis
    using c1 c2 c3 c4 by simp
qed


lemma create_fixups_tag:
  "create_fixups s base t = Inr s' \<Longrightarrow>
   t_changeset (tags s' t) = t_changeset (tags s t)
   \<and> t_branch_versions (tags s' t) = t_branch_versions (tags s t)"
  by (auto simp: create_fixups_def upd_tag_def split: if_splits)

text \<open>
  What \<open>print_fixups\<close> leaves of the mark of the tag: nothing is written and the mark
  is kept when no fix-up is due, and otherwise the commit record of the fix-up carries the
  new value of the counter, which is also the mark of the changeset of the tag.
\<close>

lemma print_tag_reset_name:
  "print_tag_reset s t = Inr (branch, s1) \<Longrightarrow> t_tag (tags s1 t) = t_tag (tags s t)"
  by (auto simp: print_tag_reset_def and_then_eq_Inr Let_def set_tag_mark_def upd_tag_def
        emit_def split: if_splits)

lemma create_fixups_pending:
  "create_fixups s base t = Inr s' \<Longrightarrow>
   fst (fixup_list s' t None) = t_fixups (tags s' t)
   \<and> t_tag (tags s' t) = t_tag (tags s t)"
  by (auto simp: create_fixups_def fixup_list_def upd_tag_def split: if_splits)

lemma print_fixups_all:
  assumes "print_fixups fd s base t cs = Inr s'"
  shows "if fst (fixup_list s t cs) = []
     then out s' = out s \<and> c_mark (t_changeset (tags s' t)) = c_mark (t_changeset (tags s t))
     else c_mark (t_changeset (tags s' t)) = mark_counter s'
        \<and> (\<exists>blobs more. out s' = out s @ blobs
               @ [ECommit (ref_kind s t) (branch_name (t_tag (tags s t))),
                  EMark (mark_counter s')] @ more)"
proof (cases "fst (fixup_list s t cs) = []")
  case True
  then have "s' = snd (fixup_list s t cs)"
    using assms by (simp add: print_fixups_def split: prod.splits)
  then have "out s' = out s" "c_mark (t_changeset (tags s' t)) = c_mark (t_changeset (tags s t))"
    by (simp_all add: fixup_list_def Let_def upd_tag_def)
  then show ?thesis using True by simp
next
  case False
  obtain s1 rest where
    g: "grab_versions fd (snd (fixup_list s t cs))
       (fixups_fetch (snd (fixup_list s t cs)) (fst (fixup_list s t cs))) = Inr s1"
    and o: "out s' = out s1 @ [ECommit (ref_kind s t) (branch_name (t_tag (tags s t))),
                           EMark (Suc (mark_counter s1)),
                           ECommitter ''crap'' (fixup_time s t)] @ rest"
    and m: "c_mark (t_changeset (tags s' t)) = Suc (mark_counter s1)"
      "mark_counter s' = Suc (mark_counter s1)"
    using print_fixups_out[OF assms False] by blast
  obtain added where "out s1 = out (snd (fixup_list s t cs)) @ added"
    using grab_versions_fetched[OF g] marks_step_out by (auto simp: fetched_def)
  then have "out s1 = out s @ added"
    by (simp add: fixup_list_def Let_def upd_tag_def)
  then have "out s' = out s @ added
      @ [ECommit (ref_kind s t) (branch_name (t_tag (tags s t))), EMark (mark_counter s')]
      @ (ECommitter ''crap'' (fixup_time s t) # rest)"
    using o m by simp
  then have "\<exists>blobs more. out s' = out s @ blobs
               @ [ECommit (ref_kind s t) (branch_name (t_tag (tags s t))),
                  EMark (mark_counter s')] @ more"
    by blast
  then show ?thesis using False m by simp
qed

lemma commit_delta_eq:
  "commit_delta s tip vs (nil, fetch) =
     (nil \<and> \<not> list_ex (in_delta s tip) vs, fetch @ to_fetch s tip vs)"
  by (induction vs arbitrary: nil fetch)
     (auto simp: in_delta_def to_fetch_def version_live_def)

lemma in_delta_cong:
  "marks_step s s1 \<Longrightarrow> in_delta s1 tip i = in_delta s tip i"
proof -
  assume m: "marks_step s s1"
  have sm: "\<And>v. same_meta (versions s v) (versions s1 v)"
    using m by (simp add: marks_step_def)
  have live: "\<And>x. version_live s1 x = version_live s x"
  proof -
    fix x show "version_live s1 x = version_live s x"
      using sm by (cases x) (auto simp: version_live_def same_meta_def)
  qed
  show ?thesis
    using sm[of i] by (simp add: in_delta_def live same_meta_def)
qed

lemma file_line_render: "render (file_line s i) = file_line_text s i"
  by (simp add: file_line_def file_line_text_def version_normalise_def)

lemma commit_record_out:
  assumes "commit_record s c v b = Inr s'"
  shows "mark_counter s' = Suc (mark_counter s)
     \<and> c_mark (changesets s' c) = Suc (mark_counter s)
     \<and> versions s' = versions s
     \<and> out s' = out s @ [ECommit ''heads'' (branch_name (t_tag (tags s b))),
                          EMark (Suc (mark_counter s)),
                          ECommitter (v_author (versions s v)) (c_time (changesets s c)),
                          EData (v_log (versions s v))]
                 @ map (file_line s')
                     (filter (\<lambda>i. v_used (versions s i)) (c_versions (changesets s c)))"
proof -
  obtain s3 where nm: "next_mark (upd_tag s b (\<lambda>tg. tg\<lparr>t_last := Some (CommitCs c)\<rparr>)) = Inr s3"
    and s': "s' = (let s4 = set_commit_mark s3 c (mark_counter s3)
       in emit s4
                 ([ECommit ''heads'' (branch_name (t_tag (tags s4 b))),
                   EMark (c_mark (changesets s4 c)),
                   ECommitter (v_author (versions s4 v)) (c_time (changesets s4 c)),
                   EData (v_log (versions s4 v))]
                  @ map (file_line s4)
                      (filter (\<lambda>i. v_used (versions s4 i)) (c_versions (changesets s4 c)))))"
    using assms by (auto simp: commit_record_def and_then_eq_Inr Let_def)
  have s3: "s3 = (upd_tag s b (\<lambda>tg. tg\<lparr>t_last := Some (CommitCs c)\<rparr>))
                   \<lparr>mark_counter := Suc (mark_counter s)\<rparr>"
    using nm by (auto simp: next_mark_def upd_tag_def split: if_splits)
  have fl: "file_line s' = file_line (set_commit_mark s3 c (mark_counter s3))"
    by (intro ext)
       (simp add: s' Let_def file_line_def emit_def vpath_def version_normalise_def)
  show ?thesis
    unfolding fl
    by (simp add: s' Let_def) (simp add: s3 emit_def set_commit_mark_def upd_tag_def)
qed


lemma print_commit_unfold:
  assumes "c_versions (changesets s c) = v # others"
    and "v_branch (versions s v) = Some b"
    and "print_fixups fd s (Some b) b (Some (CommitCs c)) = Inr s1"
    and "t_branch_versions (tags s1 b) \<noteq> None"
  shows "print_commit fd s c =
     (if \<not> list_ex (in_delta s (branch_tip s1 b)) (v # others) then commit_nothing s1 c b
      else and_then (grab_versions fd s1 (to_fetch s1 (branch_tip s1 b) (v # others)))
             (\<lambda>s2. commit_record s2 c v b))"
proof -
  have m: "marks_step s s1" and cs: "changesets s1 = changesets s"
    using print_fixups_step[OF assms(3)] by simp_all
  obtain tip where tip: "t_branch_versions (tags s1 b) = Some tip"
    using assms(4) by auto
  have bt: "branch_tip s1 b = tip"
    by (intro ext) (simp add: branch_tip_def base_version_def tip)
  have d: "in_delta s1 tip = in_delta s tip"
    by (intro ext in_delta_cong[OF m])
  show ?thesis
    unfolding print_commit_def
    using assms(1,2,3) tip
    by (simp add: cs commit_delta_eq bt d)
qed


section \<open>Claims\<close>

text \<open>
  C1. The contract of \<open>grab_versions\<close> is that every version of the set has a mark other
  than the sentinel when the call returns. For the two versions \<open>1.1\<close> of \<open>a\<close> and \<open>b\<close>,
  which share their version identifier, and a server that answers the request with
  \<open>ok\<close> alone, the call returns, no blob is written, and both versions still carry the
  sentinel \<open>SIZE_MAX\<close>: after \<open>grab_by_option\<close> the same-identifier path returns at once,
  without the check that \<open>grab_version\<close> makes and without the retry of the date path.
\<close>

theorem grab_versions_same_id_leaves_sentinel:
  "case grab_versions format_date (two_files (''ok'' @ NL)) [0, 1] of
     Inl e \<Rightarrow> False
   | Inr s' \<Rightarrow> v_mark (versions s' 0) = SIZE_MAX \<and> v_mark (versions s' 1) = SIZE_MAX
       \<and> out s' = [] \<and> s_input s' = []"
  by (simp add: fetch_defs example_defs)

text \<open>
  C2. For a set of versions that do not share a branch, \<open>grab_versions\<close> still makes the
  request by date, with the tag of the branch of the first version: only that branch is
  tested, and only for being present. The versions \<open>b 1.2\<close> (branch \<open>B\<close>, time 250) and
  \<open>a 1.1\<close> (trunk, time 100) differ in their version identifiers and in their branches;
  the call returns after one transaction, the request
  \<open>Argument -rB\<close>, \<open>Argument -D250\<close> for the paths \<open>a\<close> and \<open>b\<close>, which the server answers
  with both versions, and no version is fetched on its own.
\<close>

theorem grab_versions_mixed_branches_one_request:
  "case grab_versions epoch_date (two_branches reply_a_and_b) [3, 0] of
     Inl e \<Rightarrow> False
   | Inr s' \<Rightarrow>
       v_branch (versions (two_branches reply_a_and_b) 3) = Some 1
       \<and> v_branch (versions (two_branches reply_a_and_b) 0) = Some 0
       \<and> s_count_transactions s' = 1
       \<and> s_sent s' =
           ''Directory m'' @ NL @ ''/r/m'' @ NL @ ''Argument -rB'' @ NL
           @ ''Argument -D250'' @ NL @ ''Argument -kk'' @ NL @ ''Argument --'' @ NL
           @ ''Argument a'' @ NL @ ''Argument b'' @ NL @ ''update'' @ NL
       \<and> v_mark (versions s' 3) = 2 \<and> v_mark (versions s' 0) = 1"
  by (simp add: fetch_defs example_defs dec.simps dec_int_def)

subsection \<open>C3\<close>

lemma create_fixups_loop_eq:
  "sorted_wrt (<) (map (\<lambda>v. v_file (versions s v)) tf) \<Longrightarrow>
   \<forall>v \<in> set tf. k \<le> v_file (versions s v) \<Longrightarrow>
   create_fixups_loop s base [k..<n] tf =
     map (expected_fixup s tf) (filter (fixup_needed s base tf) [k..<n])"
proof (induction "n - k" arbitrary: k tf)
  case 0
  then show ?case by simp
next
  case (Suc d)
  then have kn: "k < n" by simp
  have upt: "[k..<n] = k # [Suc k..<n]" using kn by (simp add: upt_conv_Cons)
  have d: "d = n - Suc k" using Suc.hyps(2) by simp
  show ?case
  proof (cases "tf \<noteq> [] \<and> v_file (versions s (hd tf)) = k")
    case True
    then obtain v tf' where tf: "tf = v # tf'" and vk: "v_file (versions s v) = k"
      by (cases tf) auto
    have sorted': "sorted_wrt (<) (map (\<lambda>v. v_file (versions s v)) tf')"
      using Suc.prems(1) tf by simp
    have ge': "\<forall>w \<in> set tf'. Suc k \<le> v_file (versions s w)"
      using Suc.prems(1) tf vk by auto
    have tk: "target_version s tf k = Some v"
      using tf vk by (simp add: target_version_def)
    have same: "\<And>i. i \<in> set [Suc k..<n] \<Longrightarrow> target_version s tf i = target_version s tf' i"
      using tf vk by (simp add: target_version_def)
    have "filter (fixup_needed s base tf) [Suc k..<n]
        = filter (fixup_needed s base tf') [Suc k..<n]"
      by (rule filter_cong) (simp_all add: fixup_needed_def same)
    moreover have "map (expected_fixup s tf) (filter (fixup_needed s base tf') [Suc k..<n])
        = map (expected_fixup s tf') (filter (fixup_needed s base tf') [Suc k..<n])"
      by (rule map_cong) (simp_all add: expected_fixup_def same)
    ultimately have rest:
      "map (expected_fixup s tf) (filter (fixup_needed s base tf) [Suc k..<n])
        = map (expected_fixup s tf') (filter (fixup_needed s base tf') [Suc k..<n])"
      by simp
    have ih: "create_fixups_loop s base [Suc k..<n] tf'
       = map (expected_fixup s tf') (filter (fixup_needed s base tf') [Suc k..<n])"
      using Suc.hyps(1)[OF d sorted' ge'] .
    show ?thesis
      unfolding upt
      using tf vk tk ih rest
      by (simp add: Let_def fixup_needed_def expected_fixup_def base_version_def
            version_normalise_def split: option.splits)
  next
    case False
    have ne: "\<forall>w \<in> set tf. v_file (versions s w) \<noteq> k"
    proof (cases tf)
      case Nil
      then show ?thesis by simp
    next
      case (Cons v tf')
      then have "v_file (versions s v) \<noteq> k" using False by simp
      moreover have "k \<le> v_file (versions s v)" using Suc.prems(2) Cons by simp
      ultimately have "k < v_file (versions s v)" by simp
      moreover have "\<forall>w \<in> set tf'. v_file (versions s v) < v_file (versions s w)"
        using Suc.prems(1) Cons by simp
      ultimately show ?thesis using Cons by auto
    qed
    then have ge': "\<forall>w \<in> set tf. Suc k \<le> v_file (versions s w)"
      using Suc.prems(2) by (metis Suc_leI le_neq_implies_less)
    have tk: "target_version s tf k = None"
      using ne by (simp add: target_version_def find_None_iff)
    have ih: "create_fixups_loop s base [Suc k..<n] tf
       = map (expected_fixup s tf) (filter (fixup_needed s base tf) [Suc k..<n])"
      using Suc.hyps(1)[OF d Suc.prems(1) ge'] .
    have nh: "(tf \<noteq> [] \<and> v_file (versions s (hd tf)) = k) = False"
      using False by simp
    show ?thesis
      unfolding upt
      using tk ih
      by (simp add: nh Let_def fixup_needed_def expected_fixup_def base_version_def
            version_normalise_def split: option.splits)
  qed
qed

text \<open>
  C3, as amended. For a tag \<open>t\<close> whose files are in the order of the files of the
  database and that has no fix-ups yet, \<open>create_fixups\<close> on the tips \<open>base\<close> returns,
  and the fix-ups of the tag are then sorted by time ascending and are, up to that
  order, exactly one entry for each file whose live base version differs from its live
  target version and no other entry. The entry of a file holds the live target version
  or null; its time is the time of the version that the tag names for the file, also
  when that version is dead and the entry is a deletion, and \<open>TIME_MIN\<close> only when the
  tag names no version for the file.
\<close>

theorem create_fixups_entries:
  assumes "sorted_wrt (<) (map (\<lambda>v. v_file (versions s v)) (t_tag_files (tags s t)))"
    and "t_fixups (tags s t) = []"
  shows "\<exists>s'. create_fixups s base t = Inr s'
     \<and> sorted (map fx_time (t_fixups (tags s' t)))
     \<and> mset (t_fixups (tags s' t)) =
         mset (map (expected_fixup s (t_tag_files (tags s t)))
                (filter (fixup_needed s base (t_tag_files (tags s t))) [0..<nfiles s]))"
  using assms create_fixups_loop_eq[of s "t_tag_files (tags s t)" 0 base "nfiles s"]
  by (simp add: create_fixups_def upd_tag_def)

theorem create_fixups_entries_witness:
  "sorted_wrt (<) (map (\<lambda>v. v_file (versions (after_first_commit []) v))
      (t_tag_files (tags (after_first_commit []) 1)))
   \<and> t_fixups (tags (after_first_commit []) 1) = []
   \<and> (\<exists>s'. create_fixups (after_first_commit [])
              (t_branch_versions (tags (after_first_commit []) 0)) 1 = Inr s'
        \<and> sorted (map fx_time (t_fixups (tags s' 1)))
        \<and> mset (t_fixups (tags s' 1)) = {#\<lparr>fx_file = 0, fx_version = None, fx_time = 200\<rparr>#})"
  using create_fixups_entries[of "after_first_commit []" 1
          "t_branch_versions (tags (after_first_commit []) 0)"]
  by (simp add: example_defs expected_fixup_def fixup_needed_def target_version_def
        base_version_def version_live_def upt_rec)

text \<open>
  The claim as stated gives a deletion the minimum time. The tag \<open>v1\<close> names the dead
  version \<open>a 1.2\<close> of time 200 where the tip of the trunk is the live \<open>a 1.1\<close>: the
  entry is a deletion, and its time is 200.
\<close>

theorem create_fixups_deletion_time_counterexample:
  "map_option (\<lambda>s'. t_fixups (tags s' 1))
     (result (create_fixups (after_first_commit [])
        (t_branch_versions (tags (after_first_commit []) 0)) 1))
     = Some [\<lparr>fx_file = 0, fx_version = None, fx_time = 200\<rparr>]
   \<and> (200 :: int) \<noteq> TIME_MIN"
  by (simp add: result_def fixup_defs fetch_defs example_defs)

subsection \<open>C4\<close>

lemma old_version_alt:
  "(case base of None \<Rightarrow> None | Some b \<Rightarrow> version_live s (b i)) = old_version s base i"
  by (cases base) (simp_all add: old_version_def base_version_def version_live_def)

lemma new_version_Cons_other:
  "fx_file e \<noteq> f \<Longrightarrow> new_version s base (e # ffv) f = new_version s base ffv f"
  by (simp add: new_version_def)

lemma file_change_Cons_other:
  "fx_file e \<noteq> f \<Longrightarrow> file_change s base (e # ffv) f = file_change s base ffv f"
  by (simp add: file_change_def new_version_Cons_other)

lemma count_change_Cons_other:
  "\<forall>f \<in> set fs. fx_file e \<noteq> f \<Longrightarrow>
   count_change s base (e # ffv) fs c = count_change s base ffv fs c"
  unfolding count_change_def
  by (rule arg_cong[where f = length], rule filter_cong) (simp_all add: file_change_Cons_other)

lemma comment_line_Cons_other:
  "fx_file e \<noteq> f \<Longrightarrow>
   comment_line s base (e # ffv) kept deleted f = comment_line s base ffv kept deleted f"
  by (simp add: comment_line_def change_line_def file_change_Cons_other new_version_Cons_other
        cong: change.case_cong)

lemma in_file_order_Cons:
  "in_file_order k n (e # ffv) \<longleftrightarrow>
     k \<le> fx_file e \<and> fx_file e < n \<and> in_file_order (Suc (fx_file e)) n ffv"
  by (auto simp: in_file_order_def list_all_iff)

lemma in_file_order_Suc:
  "in_file_order k n ffv \<Longrightarrow> (ffv = [] \<or> fx_file (hd ffv) \<noteq> k) \<Longrightarrow> in_file_order (Suc k) n ffv"
  by (cases ffv) (auto simp: in_file_order_def list_all_iff)

lemma in_file_order_weaken:
  "in_file_order (Suc k) n ffv \<Longrightarrow> in_file_order k n ffv"
  by (auto simp: in_file_order_def list_all_iff)

lemma in_file_order_no_entry:
  "in_file_order (Suc k) n ffv \<Longrightarrow> find (\<lambda>e. fx_file e = k) ffv = None"
  by (auto simp: in_file_order_def list_all_iff find_None_iff)

lemma count_change_Cons_file:
  "count_change s base ffv (k # fs) c =
     (if file_change s base ffv k = c then 1 else 0) + count_change s base ffv fs c"
  by (simp add: count_change_def)

lemma fixup_stats_counts:
  "in_file_order k n ffv \<Longrightarrow>
   fixup_stats s base [k..<n] ffv (keep, added, deleted, modified) =
     (keep + count_change s base ffv [k..<n] Kept,
      added + count_change s base ffv [k..<n] Added,
      deleted + count_change s base ffv [k..<n] Deleted,
      modified + count_change s base ffv [k..<n] Modified)"
proof (induction "n - k" arbitrary: k ffv keep added deleted modified)
  case 0
  then show ?case by (simp add: count_change_def)
next
  case (Suc d)
  then have kn: "k < n" by simp
  have upt: "[k..<n] = k # [Suc k..<n]" using kn by (simp add: upt_conv_Cons)
  have d: "d = n - Suc k" using Suc.hyps(2) by simp
  show ?case
  proof (cases "ffv \<noteq> [] \<and> fx_file (hd ffv) = k")
    case True
    then obtain e rest where ffv: "ffv = e # rest" and ek: "fx_file e = k"
      by (cases ffv) auto
    have ord: "in_file_order (Suc k) n rest"
      using Suc.prems ffv ek by (simp add: in_file_order_Cons)
    have other: "\<forall>f \<in> set [Suc k..<n]. fx_file e \<noteq> f"
      using ek by simp
    note ih = Suc.hyps(1)[OF d ord]
    have nv: "new_version s base (e # rest) k = fx_version e"
      using ek by (simp add: new_version_def)
    show ?thesis
      unfolding upt ffv
      by (auto simp: ih Let_def ek count_change_Cons_file count_change_Cons_other[OF other]
            file_change_def nv old_version_alt)
  next
    case False
    then have nh: "(ffv \<noteq> [] \<and> fx_file (hd ffv) = k) = False" by simp
    have ord: "in_file_order (Suc k) n ffv"
      using Suc.prems False by (auto intro: in_file_order_Suc)
    note ih = Suc.hyps(1)[OF d ord]
    have nv: "new_version s base ffv k = old_version s base k"
      using in_file_order_no_entry[OF ord] by (simp add: new_version_def)
    show ?thesis
      unfolding upt
      by (simp add: ih nh Let_def count_change_Cons_file file_change_def nv old_version_alt)
  qed
qed

lemma fixup_lines_lines:
  "in_file_order k n ffv \<Longrightarrow>
   fixup_lines s base keep deleted [k..<n] ffv =
     concat (map (comment_line s base ffv keep deleted) [k..<n])"
proof (induction "n - k" arbitrary: k ffv)
  case 0
  then show ?case by simp
next
  case (Suc d)
  then have kn: "k < n" by simp
  have upt: "[k..<n] = k # [Suc k..<n]" using kn by (simp add: upt_conv_Cons)
  have d: "d = n - Suc k" using Suc.hyps(2) by simp
  show ?case
  proof (cases "ffv \<noteq> [] \<and> fx_file (hd ffv) = k")
    case True
    then obtain e rest where ffv: "ffv = e # rest" and ek: "fx_file e = k"
      by (cases ffv) auto
    have ord: "in_file_order (Suc k) n rest"
      using Suc.prems ffv ek by (simp add: in_file_order_Cons)
    have same: "map (comment_line s base (e # rest) keep deleted) [Suc k..<n]
        = map (comment_line s base rest keep deleted) [Suc k..<n]"
      by (rule map_cong) (simp_all add: comment_line_Cons_other ek)
    note ih = Suc.hyps(1)[OF d ord]
    have nv: "new_version s base (e # rest) k = fx_version e"
      using ek by (simp add: new_version_def)
    show ?thesis
      unfolding upt ffv
      by (auto simp: ih same Let_def ek comment_line_def file_change_def nv old_version_alt
            keep_line_def change_line_def version_or_def
            split: option.splits)
  next
    case False
    then have nh: "(ffv \<noteq> [] \<and> fx_file (hd ffv) = k) = False" by simp
    have ord: "in_file_order (Suc k) n ffv"
      using Suc.prems False by (auto intro: in_file_order_Suc)
    note ih = Suc.hyps(1)[OF d ord]
    have nv: "new_version s base ffv k = old_version s base k"
      using in_file_order_no_entry[OF ord] by (simp add: new_version_def)
    show ?thesis
      unfolding upt
      by (auto simp: ih nh Let_def comment_line_def file_change_def nv old_version_alt
            keep_line_def split: option.splits)
  qed
qed


lemma in_file_order_empty: "n \<le> k \<Longrightarrow> in_file_order k n ffv \<longleftrightarrow> ffv = []"
  by (cases ffv) (auto simp: in_file_order_def)

lemma in_file_order_skip:
  "ffv = [] \<or> fx_file (hd ffv) \<noteq> k \<Longrightarrow> in_file_order k n ffv \<longleftrightarrow> in_file_order (Suc k) n ffv"
  using in_file_order_Suc in_file_order_weaken by blast

lemma fixup_stats_changes:
  "changes_of (fixup_stats s base [k..<n] ffv acc) \<le> changes_of acc + length ffv \<and>
   (changes_of (fixup_stats s base [k..<n] ffv acc) = changes_of acc + length ffv
      \<longleftrightarrow> in_file_order k n ffv \<and> list_all (differs s base) ffv)"
proof (induction "n - k" arbitrary: k ffv acc)
  case 0
  obtain keep added deleted modified where acc: "acc = (keep, added, deleted, modified)"
    by (cases acc) auto
  from 0 have "n \<le> k" by simp
  then show ?case
    by (auto simp: acc in_file_order_empty)
next
  case (Suc d)
  obtain keep added deleted modified where acc: "acc = (keep, added, deleted, modified)"
    by (cases acc) auto
  from Suc have kn: "k < n" by simp
  have upt: "[k..<n] = k # [Suc k..<n]" using kn by (simp add: upt_conv_Cons)
  have d: "d = n - Suc k" using Suc.hyps(2) by simp
  show ?case
  proof (cases "ffv \<noteq> [] \<and> fx_file (hd ffv) = k")
    case True
    then obtain e rest where ffv: "ffv = e # rest" and ek: "fx_file e = k"
      by (cases ffv) auto
    have ord: "in_file_order k n (e # rest) \<longleftrightarrow> in_file_order (Suc k) n rest"
      using ek kn by (simp add: in_file_order_Cons)
    show ?thesis
    proof (cases "differs s base e")
      case True
      define acc' where "acc' =
        (if fx_version e = None then (keep, added, deleted + 1, modified)
         else if old_version s base k = None then (keep, added + 1, deleted, modified)
         else (keep, added, deleted, modified + 1))"
      have neq: "old_version s base k \<noteq> fx_version e"
        using True ek by (auto simp: differs_def)
      have step: "fixup_stats s base (k # [Suc k..<n]) (e # rest) acc
                 = fixup_stats s base [Suc k..<n] rest acc'"
        by (simp add: acc acc'_def Let_def ek neq old_version_alt)
      have ch: "changes_of acc' = changes_of acc + 1"
        by (simp add: acc acc'_def)
      show ?thesis
        unfolding upt ffv step
        using Suc.hyps(1)[OF d, of rest acc'] ch True ord by auto
    next
      case False
      define acc' where "acc' =
        (if old_version s base k \<noteq> None then keep + 1 else keep, added, deleted, modified)"
      have eq: "old_version s base k = fx_version e"
        using False ek by (auto simp: differs_def)
      have step: "fixup_stats s base (k # [Suc k..<n]) (e # rest) acc
                 = fixup_stats s base [Suc k..<n] rest acc'"
        by (simp add: acc acc'_def Let_def ek eq old_version_alt)
      have ch: "changes_of acc' = changes_of acc"
        by (simp add: acc acc'_def)
      show ?thesis
        unfolding upt ffv step
        using Suc.hyps(1)[OF d, of rest acc'] ch False by auto
    qed
  next
    case False
    then have nh: "(ffv \<noteq> [] \<and> fx_file (hd ffv) = k) = False" by simp
    define acc' where "acc' =
      (if old_version s base k \<noteq> None then keep + 1 else keep, added, deleted, modified)"
    have step: "fixup_stats s base (k # [Suc k..<n]) ffv acc
               = fixup_stats s base [Suc k..<n] ffv acc'"
      by (simp add: acc acc'_def nh Let_def old_version_alt)
    have ch: "changes_of acc' = changes_of acc"
      by (simp add: acc acc'_def)
    have ord: "in_file_order k n ffv \<longleftrightarrow> in_file_order (Suc k) n ffv"
      using False by (intro in_file_order_skip) auto
    show ?thesis
      unfolding upt step
      using Suc.hyps(1)[OF d, of ffv acc'] ch ord by auto
  qed
qed

lemma fixup_commit_comment_returns_iff:
  "(\<exists>comment. fixup_commit_comment s base fixups = Inr comment)
     \<longleftrightarrow> in_file_order 0 (nfiles s) fixups \<and> list_all (differs s base) fixups"
  using fixup_stats_changes[of s base 0 "nfiles s" fixups "(0, 0, 0, 0)"]
  by (auto simp: fixup_commit_comment_def split: prod.splits)

text \<open>
  C4, as amended. The log message of every fix-up commit is the first line
  \<open>Fix-up commit generated by crap-clone.  (~M +A -D =K)\<close>, where M, A, D and K count
  the modified, added, deleted and kept files, followed by the lines of the files in
  the order of the database: the line \<open><path> <old-version-or-ADD>-><new-version>\<close> for
  every file that is modified or added; the line \<open><path> <old-version>->DELETE\<close> for
  every deleted file only if the deleted files are at most as many as the kept ones;
  and the line \<open><path> KEEP <version>\<close> for every kept file if the kept files are at most
  as many as the deleted ones.
\<close>

theorem fixup_commit_comment_format:
  assumes "fixup_commit_comment s base fixups = Inr comment"
  shows "comment = fixup_comment s base fixups"
proof -
  have ord: "in_file_order 0 (nfiles s) fixups"
    using assms fixup_commit_comment_returns_iff by blast
  show ?thesis
    using assms fixup_stats_counts[OF ord, of s base 0 0 0 0]
      fixup_lines_lines[OF ord, of s base]
    by (auto simp: fixup_commit_comment_def fixup_comment_def split: prod.splits if_splits)
qed

theorem fixup_commit_comment_format_witness:
  "fixup_commit_comment (after_first_commit [])
      (t_branch_versions (tags (after_first_commit []) 0))
      [\<lparr>fx_file = 0, fx_version = None, fx_time = 200\<rparr>]
     = Inr (''Fix-up commit generated by crap-clone.  (~0 +0 -1 =1)'' @ NL
            @ ''a 1.1->DELETE'' @ NL @ ''b KEEP 1.1'' @ NL)
   \<and> ''Fix-up commit generated by crap-clone.  (~0 +0 -1 =1)'' @ NL
        @ ''a 1.1->DELETE'' @ NL @ ''b KEEP 1.1'' @ NL
     = fixup_comment (after_first_commit [])
         (t_branch_versions (tags (after_first_commit []) 0))
         [\<lparr>fx_file = 0, fx_version = None, fx_time = 200\<rparr>]"
proof -
  have r: "fixup_commit_comment (after_first_commit [])
      (t_branch_versions (tags (after_first_commit []) 0))
      [\<lparr>fx_file = 0, fx_version = None, fx_time = 200\<rparr>]
     = Inr (''Fix-up commit generated by crap-clone.  (~0 +0 -1 =1)'' @ NL
            @ ''a 1.1->DELETE'' @ NL @ ''b KEEP 1.1'' @ NL)"
    by (simp add: fixup_defs fetch_defs example_defs dec.simps)
  show ?thesis
    using r fixup_commit_comment_format[OF r] by simp
qed

text \<open>
  The claim as stated lists a line for every file that changes state. With the tips
  \<open>a 1.1\<close> and nothing for \<open>b\<close>, the fix-up that deletes \<open>a\<close> counts one deleted file and
  no kept file: the message is the first line alone, without a line for \<open>a\<close>.
\<close>

theorem fixup_commit_comment_deletion_counterexample:
  "result (fixup_commit_comment (after_first_commit [])
      (Some ((\<lambda>f. None)(0 := Some 0)))
      [\<lparr>fx_file = 0, fx_version = None, fx_time = 200\<rparr>])
     = Some (''Fix-up commit generated by crap-clone.  (~0 +0 -1 =0)'' @ NL)
   \<and> file_change (after_first_commit []) (Some ((\<lambda>f. None)(0 := Some 0)))
        [\<lparr>fx_file = 0, fx_version = None, fx_time = 200\<rparr>] 0 = Deleted"
  by (simp add: result_def fixup_defs fetch_defs example_defs dec.simps file_change_def old_version_def
        new_version_def base_version_def)

subsection \<open>C5\<close>

text \<open>
  C5, as amended. For a commit changeset whose delta is not empty (after the fix-ups
  due before it have been flushed, which gives the state \<open>s1\<close>), \<open>print_commit\<close> fetches
  the versions of the delta that have no mark, gives the changeset the next mark of the
  counter, and writes \<open>commit refs/heads/<branch>\<close> (the name \<open>cvs_master\<close> for the empty
  name), \<open>mark :N\<close>, the committer line with the author and the time of the changeset and
  the zone \<open>+0000\<close>, the data block with the log, and then one line for every used
  version of the changeset, in the delta or not: \<open>D <path>\<close> for a dead version, and
  \<open>M <mode> :<blob-mark> <path>\<close> with the mode 755 for an executable and 644 otherwise
  for a live one.
\<close>

theorem print_commit_record:
  assumes "print_commit format_date s c = Inr s'"
    and "c_versions (changesets s c) = v # others"
    and "v_branch (versions s v) = Some b"
    and "print_fixups format_date s (Some b) b (Some (CommitCs c)) = Inr s1"
    and "t_branch_versions (tags s1 b) \<noteq> None"
    and "list_ex (in_delta s (branch_tip s1 b)) (v # others)"
  shows "\<exists>s2.
       grab_versions format_date s1 (to_fetch s1 (branch_tip s1 b) (v # others)) = Inr s2
     \<and> mark_counter s' = Suc (mark_counter s2)
     \<and> c_mark (changesets s' c) = Suc (mark_counter s2)
     \<and> out s' = out s2
         @ [ECommit ''heads'' (if t_tag (tags s b) \<noteq> [] then t_tag (tags s b) else ''cvs_master''),
            EMark (Suc (mark_counter s2)),
            ECommitter (v_author (versions s v)) (c_time (changesets s c)),
            EData (v_log (versions s v))]
         @ map (file_line s') (filter (\<lambda>i. v_used (versions s i)) (v # others))
     \<and> render_all (out s') = render_all (out s2)
         @ ''commit refs/heads/''
         @ (if t_tag (tags s b) \<noteq> [] then t_tag (tags s b) else ''cvs_master'') @ NL
         @ ''mark :'' @ dec (Suc (mark_counter s2)) @ NL
         @ ''committer '' @ v_author (versions s v) @ '' <'' @ v_author (versions s v) @ ''> ''
         @ dec_int (c_time (changesets s c)) @ '' +0000'' @ NL
         @ ''data '' @ dec (length (v_log (versions s v))) @ NL @ v_log (versions s v) @ NL
         @ concat (map (file_line_text s') (filter (\<lambda>i. v_used (versions s i)) (v # others)))"
proof -
  obtain s2 where
    g: "grab_versions format_date s1 (to_fetch s1 (branch_tip s1 b) (v # others)) = Inr s2"
    and cr: "commit_record s2 c v b = Inr s'"
    using assms(1) print_commit_unfold[OF assms(2-5)] assms(6)
    by (auto simp: and_then_eq_Inr)
  have m1: "marks_step s s1" and c1: "changesets s1 = changesets s"
    using print_fixups_step[OF assms(4)] by simp_all
  have f2: "fetched s1 s2"
    using grab_versions_fetched[OF g] .
  have m2: "marks_step s s2"
    using m1 f2 marks_step_trans by (auto simp: fetched_def)
  have c2: "changesets s2 = changesets s"
    using f2 c1 by (simp add: fetched_def)
  have meta: "\<And>i. same_meta (versions s i) (versions s2 i)"
    using m2 by (simp add: marks_step_def)
  have tg: "t_tag (tags s2 b) = t_tag (tags s b)"
    using m2 by (simp add: marks_step_def same_tag_def)
  have used: "(\<lambda>i. v_used (versions s2 i)) = (\<lambda>i. v_used (versions s i))"
    using meta by (intro ext) (simp add: same_meta_def)
  have a: "v_author (versions s2 v) = v_author (versions s v)"
    "v_log (versions s2 v) = v_log (versions s v)"
    using meta[of v] by (simp_all add: same_meta_def)
  note o = commit_record_out[OF cr, unfolded c2 tg used a assms(2)]
  have events: "out s' = out s2
         @ [ECommit ''heads'' (if t_tag (tags s b) \<noteq> [] then t_tag (tags s b) else ''cvs_master''),
            EMark (Suc (mark_counter s2)),
            ECommitter (v_author (versions s v)) (c_time (changesets s c)),
            EData (v_log (versions s v))]
         @ map (file_line s') (filter (\<lambda>i. v_used (versions s i)) (v # others))"
    using o by (simp add: branch_name_def)
  have lines: "\<And>vs. render_all (map (file_line s') vs) = concat (map (file_line_text s') vs)"
    by (simp add: render_all_def file_line_render comp_def)
  have bytes: "render_all (out s') = render_all (out s2)
         @ ''commit refs/heads/''
         @ (if t_tag (tags s b) \<noteq> [] then t_tag (tags s b) else ''cvs_master'') @ NL
         @ ''mark :'' @ dec (Suc (mark_counter s2)) @ NL
         @ ''committer '' @ v_author (versions s v) @ '' <'' @ v_author (versions s v) @ ''> ''
         @ dec_int (c_time (changesets s c)) @ '' +0000'' @ NL
         @ ''data '' @ dec (length (v_log (versions s v))) @ NL @ v_log (versions s v) @ NL
         @ concat (map (file_line_text s') (filter (\<lambda>i. v_used (versions s i)) (v # others)))"
    unfolding events render_all_append lines
    by (simp add: render_all_def)
  show ?thesis
    using g o events bytes by blast
qed

theorem print_commit_record_witness:
  "\<exists>s' s1.
       print_commit epoch_date (with_mixed_commit reply_b_1_2) 7 = Inr s'
     \<and> c_versions (changesets (with_mixed_commit reply_b_1_2) 7) = [2, 3]
     \<and> v_branch (versions (with_mixed_commit reply_b_1_2) 2) = Some 0
     \<and> print_fixups epoch_date (with_mixed_commit reply_b_1_2) (Some 0) 0 (Some (CommitCs 7))
         = Inr s1
     \<and> t_branch_versions (tags s1 0) \<noteq> None
     \<and> list_ex (in_delta (with_mixed_commit reply_b_1_2) (branch_tip s1 0)) [2, 3]
     \<and> (\<exists>s2. grab_versions epoch_date s1 (to_fetch s1 (branch_tip s1 0) [2, 3]) = Inr s2
           \<and> mark_counter s' = Suc (mark_counter s2)
           \<and> c_mark (changesets s' 7) = Suc (mark_counter s2)
           \<and> out s' = out s2
               @ [ECommit ''heads'' ''cvs_master'', EMark (Suc (mark_counter s2)),
                  ECommitter ''u'' 250, EData ''next'']
               @ map (file_line s') [2, 3])"
proof -
  let ?s = "with_mixed_commit reply_b_1_2"
  have "\<exists>s1. print_fixups epoch_date ?s (Some 0) 0 (Some (CommitCs 7)) = Inr s1
     \<and> t_branch_versions (tags s1 0) \<noteq> None
     \<and> list_ex (in_delta ?s (branch_tip s1 0)) [2, 3]"
    by (simp add: emit_defs fixup_defs fetch_defs example_defs in_delta_def branch_tip_def
          base_version_def)
  then obtain s1 where pf: "print_fixups epoch_date ?s (Some 0) 0 (Some (CommitCs 7)) = Inr s1"
    and tip: "t_branch_versions (tags s1 0) \<noteq> None"
    and delta: "list_ex (in_delta ?s (branch_tip s1 0)) [2, 3]"
    by blast
  obtain s' where r: "print_commit epoch_date ?s 7 = Inr s'"
    by (simp add: emit_defs fixup_defs fetch_defs example_defs commit_delta_eq in_delta_def
          to_fetch_def)
  have vs: "c_versions (changesets ?s 7) = [2, 3]"
    and b: "v_branch (versions ?s 2) = Some 0"
    by (simp_all add: example_defs)
  have k: "(t_tag (tags ?s 0) \<noteq> []) = False" "v_author (versions ?s 2) = ''u''"
    "c_time (changesets ?s 7) = 250" "v_log (versions ?s 2) = ''next''"
    "filter (\<lambda>i. v_used (versions ?s i)) [2, 3] = [2, 3]"
    by (simp_all add: example_defs)
  note th = print_commit_record[OF r vs b pf tip delta, unfolded k if_False]
  show ?thesis
    using r vs b pf tip delta th by blast
qed

text \<open>
  The claim as stated has one line for every version of the delta. Changeset 7 holds the
  dead version \<open>a 1.2\<close> and the version \<open>b 1.2\<close>, and the trunk has no tip for either
  file: the delta is \<open>b 1.2\<close> alone, since a dead version and a missing tip are both not
  live, but the record has the two lines \<open>D a\<close> and \<open>M 644 :1 b\<close>.
\<close>

theorem print_commit_lines_counterexample:
  "map_option out (result (print_commit epoch_date (with_mixed_commit reply_b_1_2) 7))
     = Some [EBlob 1 1, ERaw ''z'', ENewline,
             ECommit ''heads'' ''cvs_master'', EMark 2, ECommitter ''u'' 250, EData ''next'',
             EFileD ''a'', EFileM False 1 ''b'']
   \<and> filter (in_delta (with_mixed_commit reply_b_1_2)
               (branch_tip (with_mixed_commit reply_b_1_2) 0))
        (c_versions (changesets (with_mixed_commit reply_b_1_2) 7)) = [3]"
  by (simp add: result_def emit_defs fixup_defs fetch_defs example_defs commit_delta_eq
        in_delta_def to_fetch_def branch_tip_def base_version_def)

subsection \<open>C6\<close>

text \<open>
  C6, as amended. \<open>print_commit\<close> first flushes the fix-ups of the branch that are due
  before the changeset, which may fetch and write a fix-up commit and gives the state
  \<open>s1\<close>. If then the live version of every used version of the changeset is the live tip
  of its file, the changeset is a no-op: nothing more is written or fetched, the mark
  of the changeset is set to the mark of the last changeset of the branch, the last
  changeset of the branch is set to this one, and nothing else of \<open>s1\<close> changes. When no
  fix-up is due the flush changes nothing (\<open>s1 = s\<close>), so that the whole call changes
  these two fields only.
\<close>

theorem print_commit_nothing:
  assumes "c_versions (changesets s c) = v # others"
    and "v_branch (versions s v) = Some b"
    and "print_fixups format_date s (Some b) b (Some (CommitCs c)) = Inr s1"
    and "t_branch_versions (tags s1 b) \<noteq> None"
    and "\<not> list_ex (in_delta s (branch_tip s1 b)) (v # others)"
    and "t_last (tags s1 b) = Some l"
  shows "print_commit format_date s c =
       Inr (s1\<lparr>changesets := (changesets s1)(c := (changesets s1 c)\<lparr>c_mark := cs_mark s1 l\<rparr>),
               tags := (tags s1)(b := (tags s1 b)\<lparr>t_last := Some (CommitCs c)\<rparr>)\<rparr>)
     \<and> (fst (fixup_list s b (Some (CommitCs c))) = [] \<longrightarrow> s1 = s)"
proof -
  have "print_commit format_date s c = commit_nothing s1 c b"
    using print_commit_unfold[OF assms(1-4)] assms(5) by simp
  then have one: "print_commit format_date s c =
       Inr (s1\<lparr>changesets := (changesets s1)(c := (changesets s1 c)\<lparr>c_mark := cs_mark s1 l\<rparr>),
               tags := (tags s1)(b := (tags s1 b)\<lparr>t_last := Some (CommitCs c)\<rparr>)\<rparr>)"
    using assms(6) by (simp add: commit_nothing_def upd_tag_def set_commit_mark_def)
  have two: "fst (fixup_list s b (Some (CommitCs c))) = [] \<longrightarrow> s1 = s"
  proof
    assume e: "fst (fixup_list s b (Some (CommitCs c))) = []"
    then have "s1 = snd (fixup_list s b (Some (CommitCs c)))"
      using assms(3) by (simp add: print_fixups_def split: prod.splits)
    moreover have "snd (fixup_list s b (Some (CommitCs c))) = s"
      using e by (simp add: fixup_list_def Let_def upd_tag_def)
    ultimately show "s1 = s" by simp
  qed
  show ?thesis using one two by simp
qed

theorem print_commit_nothing_witness:
  "\<exists>s1. c_versions (changesets branch_open 5) = [5]
     \<and> v_branch (versions branch_open 5) = Some 1
     \<and> print_fixups epoch_date branch_open (Some 1) 1 (Some (CommitCs 5)) = Inr s1
     \<and> t_branch_versions (tags s1 1) \<noteq> None
     \<and> \<not> list_ex (in_delta branch_open (branch_tip s1 1)) [5]
     \<and> t_last (tags s1 1) = Some (TagCs 1)
     \<and> print_commit epoch_date branch_open 5 =
         Inr (s1\<lparr>changesets := (changesets s1)
                    (5 := (changesets s1 5)\<lparr>c_mark := cs_mark s1 (TagCs 1)\<rparr>),
                 tags := (tags s1)(1 := (tags s1 1)\<lparr>t_last := Some (CommitCs 5)\<rparr>)\<rparr>)"
proof -
  have "\<exists>s1. print_fixups epoch_date branch_open (Some 1) 1 (Some (CommitCs 5)) = Inr s1
     \<and> t_branch_versions (tags s1 1) \<noteq> None
     \<and> \<not> list_ex (in_delta branch_open (branch_tip s1 1)) [5]
     \<and> t_last (tags s1 1) = Some (TagCs 1)"
    by (simp add: emit_defs fixup_defs fetch_defs example_defs in_delta_def branch_tip_def
          base_version_def)
  then obtain s1 where
    pf: "print_fixups epoch_date branch_open (Some 1) 1 (Some (CommitCs 5)) = Inr s1"
    and tip: "t_branch_versions (tags s1 1) \<noteq> None"
    and nil: "\<not> list_ex (in_delta branch_open (branch_tip s1 1)) [5]"
    and last: "t_last (tags s1 1) = Some (TagCs 1)"
    by blast
  have vs: "c_versions (changesets branch_open 5) = [5]"
    and b: "v_branch (versions branch_open 5) = Some 1"
    by (simp_all add: example_defs)
  show ?thesis
    using vs b pf tip nil last print_commit_nothing[OF vs b pf tip nil last] by blast
qed

text \<open>
  The claim as stated has no output and no other change whenever every used version is
  live as the tip of its file at the call. After the branch \<open>B\<close> and changeset 5 have
  been emitted, the only version of changeset 8 is dead and so is the tip of its file
  \<open>a\<close>, but the deletion of \<open>b\<close> (time 300) is a fix-up due before changeset 8 (time
  350): \<open>print_commit\<close> writes a fix-up commit with the new mark 5.
\<close>

theorem print_commit_flush_counterexample:
  "map_option
     (\<lambda>s. (list_ex (in_delta s (branch_tip s 1)) (c_versions (changesets s 8)),
            marks_of (out s), mark_counter s))
     (result (emit_changesets epoch_date with_branch_again [TagCs 1, CommitCs 5]))
     = Some (False, [1, 2, 3, 4], 4)
   \<and> map_option (\<lambda>s. (marks_of (out s), mark_counter s))
     (result (and_then (emit_changesets epoch_date with_branch_again [TagCs 1, CommitCs 5])
                (\<lambda>s. print_commit epoch_date s 8)))
     = Some ([1, 2, 3, 4, 5], 5)"
  by (simp add: result_def emit_defs fixup_defs fetch_defs example_defs commit_delta_eq
        in_delta_def to_fetch_def branch_tip_def base_version_def)

subsection \<open>C7\<close>

text \<open>
  C7, as amended. Take any run of the emission loop of \<open>main\<close> that returns, and any
  point \<open>s1\<close> of it (after the changesets \<open>before\<close>, with \<open>rest\<close> still to come). The blob
  and commit records written by the run define as their marks exactly the successive
  values of the one counter, from the value after the initial one on and in that
  order: a strictly increasing sequence without duplicates, positive since the counter
  starts at 0. A version whose mark is set at \<open>s1\<close> has the same mark at the end, and so
  has every commit changeset that is not emitted after \<open>s1\<close>. (The mark of the changeset
  of a tag is not stable: every flush of fix-ups of the tag gives it a fresh mark.)
\<close>

theorem emission_marks:
  assumes "emit_changesets format_date s before = Inr s1"
    and "emission format_date s1 rest = Inr s'"
  shows "(\<exists>added. out s' = out s @ added
            \<and> marks_of added = [Suc (mark_counter s)..<Suc (mark_counter s')]
            \<and> sorted_wrt (<) (marks_of added) \<and> distinct (marks_of added))
     \<and> (\<forall>v. v_mark (versions s1 v) \<noteq> SIZE_MAX
             \<longrightarrow> v_mark (versions s' v) = v_mark (versions s1 v))
     \<and> (\<forall>c. CommitCs c \<notin> set rest \<longrightarrow> c_mark (changesets s' c) = c_mark (changesets s1 c))"
proof -
  have one: "marks_step s s1"
    using emit_changesets_step[OF assms(1)] by simp
  have two: "marks_step s1 s'"
    "\<forall>c. CommitCs c \<notin> set rest \<longrightarrow> changesets s' c = changesets s1 c"
    using emission_step[OF assms(2)] by simp_all
  have "marks_step s s'"
    using one two(1) by (rule marks_step_trans)
  then obtain added where "out s' = out s @ added"
    and "marks_of added = [Suc (mark_counter s)..<Suc (mark_counter s')]"
    by (auto simp: marks_step_def new_marks_def)
  moreover have "sorted_wrt (<) [Suc (mark_counter s)..<Suc (mark_counter s')]"
    by (rule sorted_wrt_upt)
  moreover have "distinct [Suc (mark_counter s)..<Suc (mark_counter s')]"
    by (rule distinct_upt)
  ultimately have "\<exists>added. out s' = out s @ added
            \<and> marks_of added = [Suc (mark_counter s)..<Suc (mark_counter s')]
            \<and> sorted_wrt (<) (marks_of added) \<and> distinct (marks_of added)"
    by metis
  then show ?thesis
    using two by (simp add: marks_step_def)
qed

theorem emission_marks_witness:
  "\<exists>s1 s'. emit_changesets epoch_date with_branch [TagCs 1, CommitCs 5] = Inr s1
     \<and> emission epoch_date s1 [CommitCs 6] = Inr s'
     \<and> (\<exists>added. out s' = out with_branch @ added
            \<and> marks_of added = [Suc (mark_counter with_branch)..<Suc (mark_counter s')]
            \<and> sorted_wrt (<) (marks_of added) \<and> distinct (marks_of added))
     \<and> (\<forall>v. v_mark (versions s1 v) \<noteq> SIZE_MAX
             \<longrightarrow> v_mark (versions s' v) = v_mark (versions s1 v))
     \<and> (\<forall>c. CommitCs c \<notin> set [CommitCs 6]
             \<longrightarrow> c_mark (changesets s' c) = c_mark (changesets s1 c))"
proof -
  have "\<exists>s'. and_then (emit_changesets epoch_date with_branch [TagCs 1, CommitCs 5])
               (\<lambda>s1. emission epoch_date s1 [CommitCs 6]) = Inr s'"
    by (simp add: emit_defs fixup_defs fetch_defs example_defs)
  then obtain s1 s' where
    r1: "emit_changesets epoch_date with_branch [TagCs 1, CommitCs 5] = Inr s1"
    and r2: "emission epoch_date s1 [CommitCs 6] = Inr s'"
    by (auto simp: and_then_eq_Inr)
  show ?thesis
    using r1 r2 emission_marks[OF r1 r2] by blast
qed

text \<open>
  The claim as stated has the mark of a changeset never change once it is assigned from
  the counter. On the branch \<open>B\<close>, the flush before changeset 5 gives the changeset of
  the tag the mark 4, the value of the counter; the flush before changeset 6 gives it
  the mark 5.
\<close>

theorem tag_mark_changes_counterexample:
  "map_option (\<lambda>s. (c_mark (t_changeset (tags s 1)), mark_counter s))
     (result (emit_changesets epoch_date with_branch [TagCs 1, CommitCs 5])) = Some (4, 4)
   \<and> map_option (\<lambda>s. (c_mark (t_changeset (tags s 1)), mark_counter s))
     (result (emit_changesets epoch_date with_branch [TagCs 1, CommitCs 5, CommitCs 6]))
       = Some (5, 5)"
  by (simp add: result_def emit_defs fixup_defs fetch_defs example_defs)

subsection \<open>C8\<close>

text \<open>
  C8. For every tag changeset, \<open>print_tag\<close> writes \<open>reset refs/heads/<name>\<close> if the tag is
  a branch and \<open>reset refs/tags/<name>\<close> otherwise (the name is \<open>cvs_master\<close> for the empty
  name), sets the mark of the changeset of the tag to the mark of its parent changeset
  (0 without a parent), and writes a line \<open>from :M\<close> exactly when that mark is not 0
  (state \<open>s1\<close>, line 417). For a branch, and for a tag for which \<open>create_fixups\<close> finds no
  fix-up, nothing more is written and this is the mark when \<open>print_tag\<close> returns. For a
  tag that is not a branch and has fix-ups, the fix-up commit follows in the same call:
  its record \<open>commit refs/tags/<name>\<close> carries the new value of the mark counter, and
  that value, not the mark of the parent, is the mark of the changeset of the tag when
  \<open>print_tag\<close> returns.
\<close>

theorem print_tag_reset_record:
  assumes "print_tag format_date s t = Inr s'"
  shows "\<exists>branch s1 s2 rest.
       print_tag_reset s t = Inr (branch, s1)
     \<and> create_fixups s1 (base_array s1 branch) t = Inr s2
     \<and> c_mark (t_changeset (tags s1 t)) = parent_mark s t
     \<and> out s1 = out s
         @ EReset (if t_branch_versions (tags s t) \<noteq> None then ''heads'' else ''tags'')
             (if t_tag (tags s t) \<noteq> [] then t_tag (tags s t) else ''cvs_master'')
         # (if parent_mark s t \<noteq> 0 then [EFrom (parent_mark s t)] else [])
     \<and> render_all (out s1) = render_all (out s)
         @ ''reset refs/''
         @ (if t_branch_versions (tags s t) \<noteq> None then ''heads'' else ''tags'') @ ''/''
         @ (if t_tag (tags s t) \<noteq> [] then t_tag (tags s t) else ''cvs_master'') @ NL
         @ (if parent_mark s t \<noteq> 0 then ''from :'' @ dec (parent_mark s t) @ NL @ NL else [])
     \<and> out s' = out s1 @ rest
     \<and> (if t_branch_versions (tags s t) = None \<and> t_fixups (tags s2 t) \<noteq> []
         then c_mark (t_changeset (tags s' t)) = mark_counter s'
            \<and> (\<exists>blobs more. rest = blobs
                  @ [ECommit ''tags''
                       (if t_tag (tags s t) \<noteq> [] then t_tag (tags s t) else ''cvs_master''),
                     EMark (mark_counter s')] @ more)
         else rest = [] \<and> c_mark (t_changeset (tags s' t)) = parent_mark s t)"
proof -
  obtain branch s1 s2 where r: "print_tag_reset s t = Inr (branch, s1)"
    and cf: "create_fixups s1 (base_array s1 branch) t = Inr s2"
    and rest: "(case t_branch_versions (tags s2 t) of
         Some mine \<Rightarrow>
           (case branch of
              None \<Rightarrow>
                Inr (upd_tag s2 t (\<lambda>tg. tg\<lparr>t_branch_versions :=
                       Some (\<lambda>f. if f < nfiles s2 then None else mine f)\<rparr>))
            | Some b \<Rightarrow>
                (case t_branch_versions (tags s2 b) of
                   None \<Rightarrow> Inl (UndefinedBehaviour ''branch->branch_versions'')
                 | Some theirs \<Rightarrow>
                     Inr (upd_tag s2 t (\<lambda>tg. tg\<lparr>t_branch_versions :=
                            Some (\<lambda>f. if f < nfiles s2 then theirs f else mine f)\<rparr>))))
       | None \<Rightarrow> print_fixups format_date s2 branch t None) = Inr s'"
    using assms unfolding print_tag_def by (auto simp: and_then_eq_Inr)
  note ro = print_tag_reset_out[OF r]
  have o2: "out s2 = out s1" "c_mark (t_changeset (tags s2 t)) = parent_mark s t"
    using create_fixups_step[OF cf] create_fixups_tag[OF cf] ro by simp_all
  have bv: "t_branch_versions (tags s2 t) = None \<longleftrightarrow> t_branch_versions (tags s t) = None"
    using create_fixups_tag[OF cf] ro by simp
  have nm: "t_tag (tags s2 t) = t_tag (tags s t)"
    using create_fixups_pending[OF cf] print_tag_reset_name[OF r] by simp
  have pend: "fst (fixup_list s2 t None) = t_fixups (tags s2 t)"
    using create_fixups_pending[OF cf] by simp
  have fin: "\<exists>rest. out s' = out s1 @ rest
     \<and> (if t_branch_versions (tags s t) = None \<and> t_fixups (tags s2 t) \<noteq> []
         then c_mark (t_changeset (tags s' t)) = mark_counter s'
            \<and> (\<exists>blobs more. rest = blobs
                  @ [ECommit ''tags'' (branch_name (t_tag (tags s t))),
                     EMark (mark_counter s')] @ more)
         else rest = [] \<and> c_mark (t_changeset (tags s' t)) = parent_mark s t)"
  proof (cases "t_branch_versions (tags s2 t)")
    case None
    then have pf: "print_fixups format_date s2 branch t None = Inr s'"
      using rest by simp
    have rk: "ref_kind s2 t = ''tags''"
      using None by (simp add: ref_kind_def)
    show ?thesis
    proof (cases "t_fixups (tags s2 t) = []")
      case True
      then have "out s' = out s1 @ []" "c_mark (t_changeset (tags s' t)) = parent_mark s t"
        using print_fixups_all[OF pf] pend o2 by simp_all
      then show ?thesis using True by (intro exI[of _ "[]"]) simp
    next
      case False
      then obtain blobs more where
        m: "c_mark (t_changeset (tags s' t)) = mark_counter s'"
        and o: "out s' = out s2 @ blobs
               @ [ECommit (ref_kind s2 t) (branch_name (t_tag (tags s2 t))),
                  EMark (mark_counter s')] @ more"
        using print_fixups_all[OF pf] pend by auto
      define rest where "rest = blobs
               @ [ECommit ''tags'' (branch_name (t_tag (tags s t))),
                  EMark (mark_counter s')] @ more"
      have a: "out s' = out s1 @ rest"
        using o o2 rk nm by (simp add: rest_def)
      have b: "\<exists>blobs more. rest = blobs
               @ [ECommit ''tags'' (branch_name (t_tag (tags s t))),
                  EMark (mark_counter s')] @ more"
        unfolding rest_def by blast
      have c: "t_branch_versions (tags s t) = None \<and> t_fixups (tags s2 t) \<noteq> []"
        using False None bv by simp
      show ?thesis
        using a b c m by (intro exI[of _ rest]) simp
    qed
  next
    case (Some mine)
    then obtain arr where "s' = upd_tag s2 t (\<lambda>tg. tg\<lparr>t_branch_versions := Some arr\<rparr>)"
      using rest by (auto split: option.splits)
    then have "out s' = out s1 @ [] \<and> c_mark (t_changeset (tags s' t)) = parent_mark s t"
      using o2 by (simp add: upd_tag_def)
    moreover have "t_branch_versions (tags s t) \<noteq> None"
      using Some bv by simp
    ultimately show ?thesis by (intro exI[of _ "[]"]) simp
  qed
  have bytes: "render_all (out s1) = render_all (out s)
         @ ''reset refs/'' @ ref_kind s t @ ''/'' @ branch_name (t_tag (tags s t)) @ NL
         @ (if parent_mark s t \<noteq> 0 then ''from :'' @ dec (parent_mark s t) @ NL @ NL else [])"
    using ro by (simp add: render_all_append) (simp add: render_all_def)
  obtain rest' where fin': "out s' = out s1 @ rest'"
    "(if t_branch_versions (tags s t) = None \<and> t_fixups (tags s2 t) \<noteq> []
         then c_mark (t_changeset (tags s' t)) = mark_counter s'
            \<and> (\<exists>blobs more. rest' = blobs
                  @ [ECommit ''tags'' (branch_name (t_tag (tags s t))),
                     EMark (mark_counter s')] @ more)
         else rest' = [] \<and> c_mark (t_changeset (tags s' t)) = parent_mark s t)"
    using fin by blast
  have c1: "c_mark (t_changeset (tags s1 t)) = parent_mark s t"
    and c2: "out s1 = out s
         @ EReset (if t_branch_versions (tags s t) \<noteq> None then ''heads'' else ''tags'')
             (if t_tag (tags s t) \<noteq> [] then t_tag (tags s t) else ''cvs_master'')
         # (if parent_mark s t \<noteq> 0 then [EFrom (parent_mark s t)] else [])"
    using ro by (simp_all add: ref_kind_def branch_name_def)
  have c3: "render_all (out s1) = render_all (out s)
         @ ''reset refs/''
         @ (if t_branch_versions (tags s t) \<noteq> None then ''heads'' else ''tags'') @ ''/''
         @ (if t_tag (tags s t) \<noteq> [] then t_tag (tags s t) else ''cvs_master'') @ NL
         @ (if parent_mark s t \<noteq> 0 then ''from :'' @ dec (parent_mark s t) @ NL @ NL else [])"
    using bytes by (simp add: ref_kind_def branch_name_def)
  have bn: "branch_name (t_tag (tags s t))
      = (if t_tag (tags s t) \<noteq> [] then t_tag (tags s t) else ''cvs_master'')"
    by (simp add: branch_name_def)
  have c4: "(if t_branch_versions (tags s t) = None \<and> t_fixups (tags s2 t) \<noteq> []
         then c_mark (t_changeset (tags s' t)) = mark_counter s'
            \<and> (\<exists>blobs more. rest' = blobs
                  @ [ECommit ''tags''
                       (if t_tag (tags s t) \<noteq> [] then t_tag (tags s t) else ''cvs_master''),
                     EMark (mark_counter s')] @ more)
         else rest' = [] \<and> c_mark (t_changeset (tags s' t)) = parent_mark s t)"
    using fin'(2) unfolding bn .
  show ?thesis
    by (intro exI conjI) (rule r cf c1 c2 c3 fin'(1) c4)+
qed

text \<open>
  The instance at the tag \<open>v1\<close>, which is not a branch and needs the file \<open>a\<close> deleted.
\<close>

theorem print_tag_reset_record_witness:
  "\<exists>s' branch s1 rest.
       print_tag epoch_date (after_first_commit []) 1 = Inr s'
     \<and> print_tag_reset (after_first_commit []) 1 = Inr (branch, s1)
     \<and> c_mark (t_changeset (tags s1 1)) = 3
     \<and> out s1 = out (after_first_commit []) @ [EReset ''tags'' ''v1'', EFrom 3]
     \<and> render_all (out s1) = render_all (out (after_first_commit []))
           @ ''reset refs/tags/v1'' @ NL @ ''from :3'' @ NL @ NL
     \<and> out s' = out s1 @ rest
     \<and> c_mark (t_changeset (tags s' 1)) = mark_counter s'
     \<and> (\<exists>blobs more. rest = blobs @ [ECommit ''tags'' ''v1'', EMark (mark_counter s')] @ more)"
proof -
  obtain s' where r: "print_tag epoch_date (after_first_commit []) 1 = Inr s'"
    by (simp add: emit_defs fixup_defs fetch_defs example_defs)
  have pm: "parent_mark (after_first_commit []) 1 = 3"
    by (simp add: parent_mark_def cs_mark_def example_defs)
  have k: "(t_branch_versions (tags (after_first_commit []) 1) \<noteq> None) = False"
    "(t_branch_versions (tags (after_first_commit []) 1) = None) = True"
    "(t_tag (tags (after_first_commit []) 1) \<noteq> []) = True"
    "t_tag (tags (after_first_commit []) 1) = ''v1''"
    "((3::nat) \<noteq> 0) = True"
    by (simp_all add: example_defs)
  have d: "dec 3 = ''3''"
    by (simp add: dec.simps)
  have fx: "\<exists>s1. print_tag_reset (after_first_commit []) 1 = Inr (Some 0, s1)
      \<and> (\<exists>s2. create_fixups s1 (base_array s1 (Some 0)) 1 = Inr s2
            \<and> t_fixups (tags s2 1) \<noteq> [])"
    by (simp add: emit_defs fixup_defs fetch_defs example_defs)
  let ?A = "after_first_commit []"
  obtain branch s1 s2 rest where
    a: "print_tag_reset ?A 1 = Inr (branch, s1)"
    and b: "create_fixups s1 (base_array s1 branch) 1 = Inr s2"
    and c1: "c_mark (t_changeset (tags s1 1)) = parent_mark ?A 1"
    and c2: "out s1 = out ?A
         @ EReset (if t_branch_versions (tags ?A 1) \<noteq> None then ''heads'' else ''tags'')
             (if t_tag (tags ?A 1) \<noteq> [] then t_tag (tags ?A 1) else ''cvs_master'')
         # (if parent_mark ?A 1 \<noteq> 0 then [EFrom (parent_mark ?A 1)] else [])"
    and c3: "render_all (out s1) = render_all (out ?A)
         @ ''reset refs/''
         @ (if t_branch_versions (tags ?A 1) \<noteq> None then ''heads'' else ''tags'') @ ''/''
         @ (if t_tag (tags ?A 1) \<noteq> [] then t_tag (tags ?A 1) else ''cvs_master'') @ NL
         @ (if parent_mark ?A 1 \<noteq> 0 then ''from :'' @ dec (parent_mark ?A 1) @ NL @ NL
            else [])"
    and c4: "out s' = out s1 @ rest"
    and e0: "if t_branch_versions (tags ?A 1) = None \<and> t_fixups (tags s2 1) \<noteq> []
         then c_mark (t_changeset (tags s' 1)) = mark_counter s'
            \<and> (\<exists>blobs more. rest = blobs
                  @ [ECommit ''tags''
                       (if t_tag (tags ?A 1) \<noteq> [] then t_tag (tags ?A 1) else ''cvs_master''),
                     EMark (mark_counter s')] @ more)
         else rest = [] \<and> c_mark (t_changeset (tags s' 1)) = parent_mark ?A 1"
    using print_tag_reset_record[OF r] by blast
  have c: "c_mark (t_changeset (tags s1 1)) = 3"
      "out s1 = out (after_first_commit []) @ [EReset ''tags'' ''v1'', EFrom 3]"
    using c1 c2 unfolding pm k by simp_all
  have e: "if t_fixups (tags s2 1) \<noteq> []
         then c_mark (t_changeset (tags s' 1)) = mark_counter s'
            \<and> (\<exists>blobs more. rest = blobs
                  @ [ECommit ''tags'' ''v1'', EMark (mark_counter s')] @ more)
         else rest = [] \<and> c_mark (t_changeset (tags s' 1)) = 3"
    using e0 unfolding pm k by (simp split: if_splits)
  have "t_fixups (tags s2 1) \<noteq> []"
    using fx a b by auto
  then have f: "c_mark (t_changeset (tags s' 1)) = mark_counter s'"
    "\<exists>blobs more. rest = blobs @ [ECommit ''tags'' ''v1'', EMark (mark_counter s')] @ more"
    using e by simp_all
  have g: "render_all (out s1) = render_all (out (after_first_commit []))
           @ ''reset refs/tags/v1'' @ NL @ ''from :3'' @ NL @ NL"
    using c3 unfolding pm k d by simp
  show ?thesis
    by (rule exI[of _ s'], rule exI[of _ branch], rule exI[of _ s1], rule exI[of _ rest],
        intro conjI)
       (rule r a c g c4 f)+
qed

text \<open>
  For the tag \<open>v1\<close> the parent changeset has the mark 3 and the line \<open>from :3\<close> is
  written, but the fix-up commit of the tag takes the mark 4, and \<open>print_tag\<close> returns
  with the mark 4 on the changeset of the tag.
\<close>

theorem print_tag_fixup_mark_counterexample:
  "case print_tag epoch_date (after_first_commit []) 1 of
     Inl e \<Rightarrow> False
   | Inr s' \<Rightarrow>
       t_branch_versions (tags (after_first_commit []) 1) = None
       \<and> parent_mark (after_first_commit []) 1 = 3
       \<and> c_mark (t_changeset (tags s' 1)) = 4
       \<and> out s' = out (after_first_commit [])
           @ [EReset ''tags'' ''v1'', EFrom 3, ECommit ''tags'' ''v1'', EMark 4,
              ECommitter ''crap'' 150,
              EDataLen (length (''Fix-up commit generated by crap-clone.  (~0 +0 -1 =1)''
                @ NL @ ''a 1.1->DELETE'' @ NL @ ''b KEEP 1.1'' @ NL)),
              ERaw (''Fix-up commit generated by crap-clone.  (~0 +0 -1 =1)''
                @ NL @ ''a 1.1->DELETE'' @ NL @ ''b KEEP 1.1'' @ NL),
              EFileD ''a'']"
  by (simp add: emit_defs fixup_defs fetch_defs example_defs parent_mark_def)

subsection \<open>C9\<close>

text \<open>
  C9. Every fix-up commit is written with the fixed committer \<open>crap <crap>\<close>, and its
  time is the time of the last changeset of the branch (\<open>last.time\<close>) when the tag is a
  branch that has commits already, and the time of the changeset of the tag itself
  otherwise. (A call of \<open>print_fixups\<close> writes a fix-up commit when some fix-up is due; the
  commit follows the blobs that it fetches.)
\<close>

theorem fixup_commit_committer:
  assumes "print_fixups format_date s base t cs = Inr s'"
    and "fst (fixup_list s t cs) \<noteq> []"
    and "own_last s t"
  shows "\<exists>s1 rest.
     grab_versions format_date (snd (fixup_list s t cs))
       (fixups_fetch (snd (fixup_list s t cs)) (fst (fixup_list s t cs))) = Inr s1
     \<and> out s' = out s1 @ [ECommit (ref_kind s t) (branch_name (t_tag (tags s t))),
                           EMark (Suc (mark_counter s1)),
                           ECommitter ''crap'' (fixup_timestamp s t)] @ rest
     \<and> render (ECommitter ''crap'' (fixup_timestamp s t))
         = ''committer crap <crap> '' @ dec_int (fixup_timestamp s t) @ '' +0000'' @ NL"
  using print_fixups_out[OF assms(1,2)] fixup_time_timestamp[OF assms(3)]
  by auto

theorem fixup_commit_committer_witness:
  "\<exists>s'. print_fixups epoch_date branch_open (Some 1) 1 (Some (CommitCs 5)) = Inr s'
     \<and> fst (fixup_list branch_open 1 (Some (CommitCs 5))) \<noteq> []
     \<and> own_last branch_open 1
     \<and> fixup_timestamp branch_open 1 = 150
     \<and> (\<exists>s1 rest.
           grab_versions epoch_date (snd (fixup_list branch_open 1 (Some (CommitCs 5))))
             (fixups_fetch (snd (fixup_list branch_open 1 (Some (CommitCs 5))))
                (fst (fixup_list branch_open 1 (Some (CommitCs 5))))) = Inr s1
         \<and> out s' = out s1 @ [ECommit ''heads'' ''B'', EMark (Suc (mark_counter s1)),
                               ECommitter ''crap'' 150] @ rest
         \<and> render (ECommitter ''crap'' 150) = ''committer crap <crap> 150 +0000'' @ NL)"
proof -
  obtain s' where r: "print_fixups epoch_date branch_open (Some 1) 1 (Some (CommitCs 5)) = Inr s'"
    by (simp add: emit_defs fixup_defs fetch_defs example_defs)
  have ne: "fst (fixup_list branch_open 1 (Some (CommitCs 5))) \<noteq> []"
    by (simp add: emit_defs fixup_defs fetch_defs example_defs)
  have own: "own_last branch_open 1"
    by (simp add: own_last_def example_defs)
  have ts: "fixup_timestamp branch_open 1 = 150"
    by (simp add: fixup_timestamp_def example_defs)
  have k: "ref_kind branch_open 1 = ''heads''" "branch_name (t_tag (tags branch_open 1)) = ''B''"
    by (simp_all add: ref_kind_def branch_name_def example_defs)
  have d: "dec_int 150 = ''150''"
    by (simp add: dec_int_def dec.simps)
  note th = fixup_commit_committer[OF r ne own, unfolded ts k d]
  have line: "''committer crap <crap> '' @ ''150'' @ '' +0000'' @ NL
      = ''committer crap <crap> 150 +0000'' @ NL"
    by simp
  show ?thesis
    using r ne own ts th unfolding line by blast
qed

end
